theory Spec2Isabelle
  imports Main "HOL-Library.Word"
begin

unbundle bit_operations_syntax

section \<open>The data model of \<open>hash_index<>\<close>\<close>

text \<open>
  The class template is modelled at its default instantiation \<open>hash_index<>\<close>:
  \<open>IndexType = unsigned int\<close> (32 bits), \<open>KeyType = SizeType = std::size_t\<close> (64 bits).
  An array pointer is \<open>None\<close> while it points at the static one-element array
  \<open>m_invalid_index_dummy\<close> and \<open>Some xs\<close> once it owns a heap array with contents \<open>xs\<close>.
  A failed \<open>HASH_INDEX_ASSERT\<close>, an access outside an array and a store through the
  pointer to the shared dummy are results of their own.
\<close>

type_synonym index_type = "32 word"
type_synonym key_type = "64 word"
type_synonym size_type = "64 word"
type_synonym index_array = "index_type list option"

definition null_index :: index_type where
  "null_index = NOT 0"

definition default_initial_size :: size_type where
  "default_initial_size = 1024"

definition default_granularity :: size_type where
  "default_granularity = 1024"

datatype error = AssertionFailed | OutOfBounds | DummyWritten | DivisionByZero

record hash_index =
  m_hash_buckets :: index_array
  m_index_chain :: index_array
  m_hash_buckets_size :: size_type
  m_index_chain_size :: size_type
  m_hash_mask :: size_type
  m_lookup_mask :: size_type
  m_granularity :: size_type

subsection \<open>Array accesses\<close>

definition deref :: "index_array \<Rightarrow> index_type list" where
  "deref p = (case p of None \<Rightarrow> [null_index] | Some xs \<Rightarrow> xs)"

definition rd :: "index_array \<Rightarrow> nat \<Rightarrow> error + index_type" where
  "rd p i = (if i < length (deref p) then Inr (deref p ! i) else Inl OutOfBounds)"

definition wr :: "index_array \<Rightarrow> nat \<Rightarrow> index_type \<Rightarrow> error + index_array" where
  "wr p i v =
     (case p of
        None \<Rightarrow> Inl DummyWritten
      | Some xs \<Rightarrow> if i < length xs then Inr (Some (xs[i := v])) else Inl OutOfBounds)"

definition seq :: "error + 'a \<Rightarrow> ('a \<Rightarrow> error + 'b) \<Rightarrow> error + 'b" where
  "seq r f = (case r of Inl e \<Rightarrow> Inl e | Inr x \<Rightarrow> f x)"

definition oseq :: "(error + 'a) option \<Rightarrow> ('a \<Rightarrow> (error + 'b) option) \<Rightarrow> (error + 'b) option" where
  "oseq r f = (case r of None \<Rightarrow> None | Some (Inl e) \<Rightarrow> Some (Inl e) | Some (Inr x) \<Rightarrow> f x)"

subsection \<open>Queries, construction and memory management\<close>

definition is_allocated :: "hash_index \<Rightarrow> bool" where
  "is_allocated s = (m_hash_buckets s \<noteq> None)"

definition is_power_of_two :: "size_type \<Rightarrow> bool" where
  "is_power_of_two num = (num > 0 \<and> num AND (num - 1) = 0)"

definition internal_init :: "size_type \<Rightarrow> size_type \<Rightarrow> error + hash_index" where
  "internal_init initial_hash_buckets_size initial_index_chain_size =
     (if \<not> is_power_of_two initial_hash_buckets_size then Inl AssertionFailed
      else Inr \<lparr> m_hash_buckets = None,
                 m_index_chain = None,
                 m_hash_buckets_size = initial_hash_buckets_size,
                 m_index_chain_size = initial_index_chain_size,
                 m_hash_mask = initial_hash_buckets_size - 1,
                 m_lookup_mask = 0,
                 m_granularity = default_granularity \<rparr>)"

definition hash_index_default :: "error + hash_index" where
  "hash_index_default = internal_init default_initial_size default_initial_size"

definition hash_index_sized :: "size_type \<Rightarrow> size_type \<Rightarrow> error + hash_index" where
  "hash_index_sized initial_hash_buckets_size initial_index_chain_size =
     internal_init initial_hash_buckets_size initial_index_chain_size"

definition clear_and_free :: "hash_index \<Rightarrow> hash_index" where
  "clear_and_free s = s\<lparr> m_hash_buckets := None, m_index_chain := None, m_lookup_mask := 0 \<rparr>"

definition internal_allocate :: "hash_index \<Rightarrow> size_type \<Rightarrow> size_type \<Rightarrow> error + hash_index" where
  "internal_allocate s new_hash_buckets_size new_index_chain_size =
     (if \<not> is_power_of_two new_hash_buckets_size then Inl AssertionFailed
      else
        let s1 = (if is_allocated s then clear_and_free s else s)
        in Inr (s1\<lparr> m_hash_buckets := Some (replicate (unat new_hash_buckets_size) null_index),
                     m_index_chain := Some (replicate (unat new_index_chain_size) null_index),
                     m_hash_buckets_size := new_hash_buckets_size,
                     m_index_chain_size := new_index_chain_size,
                     m_hash_mask := new_hash_buckets_size - 1,
                     m_lookup_mask := NOT 0 \<rparr>))"

definition clear :: "hash_index \<Rightarrow> error + hash_index" where
  "clear s =
     (case m_hash_buckets s of
        None \<Rightarrow> Inr s
      | Some bs \<Rightarrow>
          if length bs < unat (m_hash_buckets_size s) then Inl OutOfBounds
          else Inr (s\<lparr> m_hash_buckets :=
                         Some (replicate (unat (m_hash_buckets_size s)) null_index
                               @ drop (unat (m_hash_buckets_size s)) bs) \<rparr>))"

definition clear_and_resize :: "hash_index \<Rightarrow> size_type \<Rightarrow> size_type \<Rightarrow> error + hash_index" where
  "clear_and_resize s new_hash_buckets_size new_index_chain_size =
     (if \<not> is_power_of_two new_hash_buckets_size then Inl AssertionFailed
      else Inr ((clear_and_free s)\<lparr> m_hash_buckets_size := new_hash_buckets_size,
                                     m_index_chain_size := new_index_chain_size \<rparr>))"

definition set_granularity :: "hash_index \<Rightarrow> size_type \<Rightarrow> error + hash_index" where
  "set_granularity s new_granularity =
     (if \<not> new_granularity > 0 then Inl AssertionFailed
      else Inr (s\<lparr> m_granularity := new_granularity \<rparr>))"

definition resize_index_chain :: "hash_index \<Rightarrow> size_type \<Rightarrow> error + hash_index" where
  "resize_index_chain s new_index_chain_size =
     (if new_index_chain_size \<le> m_index_chain_size s then Inr s
      else if m_granularity s = 0 then Inl DivisionByZero
      else
        let md = new_index_chain_size mod m_granularity s;
            new_size = (if md = 0 then new_index_chain_size
                        else new_index_chain_size + m_granularity s - md)
        in case m_index_chain s of
             None \<Rightarrow> Inr (s\<lparr> m_index_chain_size := new_size \<rparr>)
           | Some old_index_chain \<Rightarrow>
               let old_index_chain_size = m_index_chain_size s
               in if length old_index_chain < unat old_index_chain_size
                     \<or> new_size < old_index_chain_size
                  then Inl OutOfBounds
                  else Inr (s\<lparr> m_index_chain :=
                                  Some (take (unat old_index_chain_size) old_index_chain
                                        @ replicate (unat (new_size - old_index_chain_size)) null_index),
                                m_index_chain_size := new_size \<rparr>))"

definition allocated_bytes :: "hash_index \<Rightarrow> size_type" where
  "allocated_bytes s =
     (if \<not> is_allocated s then 0
      else m_hash_buckets_size s * 4 + m_index_chain_size s * 4)"

subsection \<open>Lookup\<close>

definition first :: "hash_index \<Rightarrow> key_type \<Rightarrow> error + index_type" where
  "first s key = rd (m_hash_buckets s) (unat (key AND m_hash_mask s AND m_lookup_mask s))"

definition next_hi :: "hash_index \<Rightarrow> index_type \<Rightarrow> error + index_type" where
  "next_hi s index =
     (if \<not> (ucast index :: size_type) < m_index_chain_size s then Inl AssertionFailed
      else rd (m_index_chain s) (unat ((ucast index :: size_type) AND m_lookup_mask s)))"

subsection \<open>Insertion\<close>

definition insert_hi :: "hash_index \<Rightarrow> key_type \<Rightarrow> index_type \<Rightarrow> error + hash_index" where
  "insert_hi s key index =
     seq (if \<not> is_allocated s then
            internal_allocate s (m_hash_buckets_size s)
              (if (ucast index :: size_type) \<ge> m_index_chain_size s
               then ucast (index + 1) else m_index_chain_size s)
          else if (ucast index :: size_type) \<ge> m_index_chain_size s then
            resize_index_chain s (ucast (index + 1))
          else Inr s)
       (\<lambda>s1. let k = key AND m_hash_mask s1 in
          seq (rd (m_hash_buckets s1) (unat k)) (\<lambda>head.
          seq (wr (m_index_chain s1) (unat index) head) (\<lambda>chain'.
          seq (wr (m_hash_buckets s1) (unat k) index) (\<lambda>buckets'.
            Inr (s1\<lparr> m_hash_buckets := buckets', m_index_chain := chain' \<rparr>)))))"

subsection \<open>Removal\<close>

text \<open>
  The loop of \<open>erase\<close> follows the chain until it meets the sentinel or the predecessor
  of \<open>index\<close>; on a cyclic chain without \<open>index\<close> it never returns, which is the value
  \<open>None\<close>.
\<close>

partial_function (option) erase_loop ::
  "index_array \<Rightarrow> index_type \<Rightarrow> index_type \<Rightarrow> (error + index_array) option" where
  [code]: "erase_loop chain i index =
     (if i = null_index then Some (Inr chain)
      else case rd chain (unat i) of
             Inl e \<Rightarrow> Some (Inl e)
           | Inr nxt \<Rightarrow>
               if nxt = index
               then Some (seq (rd chain (unat index)) (\<lambda>v. wr chain (unat i) v))
               else erase_loop chain nxt index)"

definition erase :: "hash_index \<Rightarrow> key_type \<Rightarrow> index_type \<Rightarrow> (error + hash_index) option" where
  "erase s key index =
     (if \<not> (ucast index :: size_type) < m_index_chain_size s then Some (Inl AssertionFailed)
      else if \<not> is_allocated s then Some (Inr s)
      else
        let k = key AND m_hash_mask s in
        oseq (Some (rd (m_hash_buckets s) (unat k))) (\<lambda>head.
        oseq (if head = index
              then Some (seq (rd (m_index_chain s) (unat index)) (\<lambda>v.
                         seq (wr (m_hash_buckets s) (unat k) v) (\<lambda>buckets1.
                           Inr (buckets1, m_index_chain s))))
              else oseq (erase_loop (m_index_chain s) head index) (\<lambda>chain1.
                     Some (Inr (m_hash_buckets s, chain1))))
          (\<lambda>(buckets1, chain1).
             Some (seq (wr chain1 (unat index) null_index) (\<lambda>chain2.
                     Inr (s\<lparr> m_hash_buckets := buckets1, m_index_chain := chain2 \<rparr>))))))"

subsection \<open>The traversal of \<open>find\<close>\<close>

text \<open>
  \<open>walk s i\<close> is the loop \<open>for (i = first(key); i != null_index; i = next(i))\<close> of
  \<open>find\<close> and of the tests, returning the positions it visits in order; a traversal that
  never meets the sentinel is \<open>None\<close>.
\<close>

partial_function (option) walk :: "hash_index \<Rightarrow> index_type \<Rightarrow> (error + index_type list) option" where
  [code]: "walk s i =
     (if i = null_index then Some (Inr [])
      else case next_hi s i of
             Inl e \<Rightarrow> Some (Inl e)
           | Inr j \<Rightarrow> Option.bind (walk s j) (\<lambda>r. Some (seq r (\<lambda>xs. Inr (i # xs)))))"

definition traversal :: "hash_index \<Rightarrow> key_type \<Rightarrow> (error + index_type list) option" where
  "traversal s key = oseq (Some (first s key)) (\<lambda>head. walk s head)"

subsection \<open>Ordered-array maintenance\<close>

function incr_loop ::
  "index_array \<Rightarrow> nat \<Rightarrow> nat \<Rightarrow> index_type \<Rightarrow> index_type \<Rightarrow> error + (index_array \<times> index_type)" where
  "incr_loop a i n index mx =
     (if i < n then
        seq (rd a i) (\<lambda>v.
          if v \<ge> index then
            seq (wr a i (v + 1)) (\<lambda>a1.
              incr_loop a1 (i + 1) n index (if v + 1 > mx then v + 1 else mx))
          else incr_loop a (i + 1) n index mx)
      else Inr (a, mx))"
  by pat_completeness auto
termination
  by (relation "measure (\<lambda>(a, i, n, index, mx). n - i)") auto

function shift_right_loop :: "index_array \<Rightarrow> nat \<Rightarrow> nat \<Rightarrow> error + index_array" where
  "shift_right_loop a i index =
     (if i > index then
        seq (rd a (i - 1)) (\<lambda>v. seq (wr a i v) (\<lambda>a1. shift_right_loop a1 (i - 1) index))
      else Inr a)"
  by pat_completeness auto
termination
  by (relation "measure (\<lambda>(a, i, index). i)") auto

definition insert_at_index :: "hash_index \<Rightarrow> key_type \<Rightarrow> index_type \<Rightarrow> error + hash_index" where
  "insert_at_index s key index =
     (if \<not> is_allocated s then Inr s
      else
        seq (incr_loop (m_hash_buckets s) 0 (unat (m_hash_buckets_size s)) index index)
          (\<lambda>(buckets1, max1).
        seq (incr_loop (m_index_chain s) 0 (unat (m_index_chain_size s)) index max1)
          (\<lambda>(chain1, mx).
        let s1 = s\<lparr> m_hash_buckets := buckets1, m_index_chain := chain1 \<rparr> in
        seq (if (ucast mx :: size_type) \<ge> m_index_chain_size s1
             then resize_index_chain s1 (ucast (mx + 1)) else Inr s1) (\<lambda>s2.
        seq (shift_right_loop (m_index_chain s2) (unat mx) (unat index)) (\<lambda>chain2.
        seq (wr chain2 (unat index) null_index) (\<lambda>chain3.
          insert_hi (s2\<lparr> m_index_chain := chain3 \<rparr>) key index))))))"

function decr_loop ::
  "index_array \<Rightarrow> nat \<Rightarrow> nat \<Rightarrow> index_type \<Rightarrow> index_type \<Rightarrow> error + (index_array \<times> index_type)" where
  "decr_loop a i n index mx =
     (if i < n then
        seq (rd a i) (\<lambda>v.
          if v \<ge> index then
            seq (wr a i (v - 1)) (\<lambda>a1.
              decr_loop a1 (i + 1) n index (if v > mx then v else mx))
          else decr_loop a (i + 1) n index mx)
      else Inr (a, mx))"
  by pat_completeness auto
termination
  by (relation "measure (\<lambda>(a, i, n, index, mx). n - i)") auto

function shift_left_loop :: "index_array \<Rightarrow> nat \<Rightarrow> nat \<Rightarrow> error + index_array" where
  "shift_left_loop a i mx =
     (if i < mx then
        seq (rd a (i + 1)) (\<lambda>v. seq (wr a i v) (\<lambda>a1. shift_left_loop a1 (i + 1) mx))
      else Inr a)"
  by pat_completeness auto
termination
  by (relation "measure (\<lambda>(a, i, mx). mx - i)") auto

definition erase_and_remove_index ::
  "hash_index \<Rightarrow> key_type \<Rightarrow> index_type \<Rightarrow> (error + hash_index) option" where
  "erase_and_remove_index s key index =
     (if \<not> (ucast index :: size_type) < m_index_chain_size s then Some (Inl AssertionFailed)
      else if \<not> is_allocated s then Some (Inr s)
      else
        oseq (erase s key index) (\<lambda>s1. Some (
        seq (decr_loop (m_hash_buckets s1) 0 (unat (m_hash_buckets_size s1)) index index)
          (\<lambda>(buckets1, max1).
        seq (decr_loop (m_index_chain s1) 0 (unat (m_index_chain_size s1)) index max1)
          (\<lambda>(chain1, mx).
        seq (shift_left_loop chain1 (unat index) (unat mx)) (\<lambda>chain2.
        seq (wr chain2 (unat mx) null_index) (\<lambda>chain3.
          Inr (s1\<lparr> m_hash_buckets := buckets1, m_index_chain := chain3 \<rparr>))))))))"

subsection \<open>Diagnostics\<close>

text \<open>
  The \<open>long\<close> counters of \<open>compute_distribution_percentage\<close> are integers (they stay far
  below \<open>2^63\<close>); the returned \<open>long\<close> is converted to \<open>size_type\<close> as C++ does, modulo
  \<open>2^64\<close>.
\<close>

partial_function (option) count_chain ::
  "index_array \<Rightarrow> index_type \<Rightarrow> int \<Rightarrow> (error + int) option" where
  [code]: "count_chain chain index n =
     (if index = null_index then Some (Inr n)
      else case rd chain (unat index) of
             Inl e \<Rightarrow> Some (Inl e)
           | Inr nxt \<Rightarrow> count_chain chain nxt (n + 1))"

function count_loop ::
  "hash_index \<Rightarrow> nat \<Rightarrow> int list \<Rightarrow> int \<Rightarrow> (error + (int list \<times> int)) option" where
  "count_loop s i hash_items_count total_items =
     (if i < unat (m_hash_buckets_size s) then
        oseq (Some (rd (m_hash_buckets s) i)) (\<lambda>head.
        oseq (count_chain (m_index_chain s) head 0) (\<lambda>c.
          count_loop s (i + 1) (hash_items_count[i := c]) (total_items + c)))
      else Some (Inr (hash_items_count, total_items)))"
  by pat_completeness auto
termination
  by (relation "measure (\<lambda>(s, i, cs, t). unat (m_hash_buckets_size s) - i)") auto

function error_loop :: "int list \<Rightarrow> nat \<Rightarrow> nat \<Rightarrow> int \<Rightarrow> int \<Rightarrow> int" where
  "error_loop hash_items_count i n average err =
     (if i < n then
        let e0 = hash_items_count ! i - average;
            e = (if e0 < 0 then - e0 else e0)
        in error_loop hash_items_count (i + 1) n average (if e > 1 then err + (e - 1) else err)
      else err)"
  by pat_completeness auto
termination
  by (relation "measure (\<lambda>(cs, i, n, a, e). n - i)") auto

definition compute_distribution_percentage :: "hash_index \<Rightarrow> (error + size_type) option" where
  "compute_distribution_percentage s =
     (if \<not> is_allocated s then Some (Inr 100)
      else
        oseq (count_loop s 0 (replicate (unat (m_hash_buckets_size s)) 0) 0)
          (\<lambda>(hash_items_count, total_items).
             if total_items \<le> 1 then Some (Inr 100)
             else
               let average = total_items div uint (m_hash_buckets_size s);
                   err = error_loop hash_items_count 0 (unat (m_hash_buckets_size s)) average 0
               in Some (Inr (word_of_int (100 - (err * 100 div total_items))))))"

subsection \<open>Comparison, copy, move and swap\<close>

function cmp_loop :: "index_array \<Rightarrow> index_array \<Rightarrow> nat \<Rightarrow> nat \<Rightarrow> error + bool" where
  "cmp_loop a b i n =
     (if i < n then
        seq (rd a i) (\<lambda>x. seq (rd b i) (\<lambda>y.
          if x \<noteq> y then Inr False else cmp_loop a b (i + 1) n))
      else Inr True)"
  by pat_completeness auto
termination
  by (relation "measure (\<lambda>(a, b, i, n). n - i)") auto

text \<open>\<open>operator ==\<close> on two distinct objects (the shortcut \<open>this == &other\<close> is not taken).\<close>

definition equals :: "hash_index \<Rightarrow> hash_index \<Rightarrow> error + bool" where
  "equals s other =
     (if m_hash_buckets_size s \<noteq> m_hash_buckets_size other then Inr False
      else if m_index_chain_size s \<noteq> m_index_chain_size other then Inr False
      else if m_hash_mask s \<noteq> m_hash_mask other then Inr False
      else if m_lookup_mask s \<noteq> m_lookup_mask other then Inr False
      else if m_granularity s \<noteq> m_granularity other then Inr False
      else if is_allocated s \<and> \<not> is_allocated other then Inr False
      else if \<not> is_allocated s \<and> is_allocated other then Inr False
      else
        seq (cmp_loop (m_hash_buckets s) (m_hash_buckets other) 0 (unat (m_hash_buckets_size s)))
          (\<lambda>same_buckets.
             if \<not> same_buckets then Inr False
             else cmp_loop (m_index_chain s) (m_index_chain other) 0 (unat (m_index_chain_size s))))"

definition swap_hi :: "hash_index \<times> hash_index \<Rightarrow> hash_index \<times> hash_index" where
  "swap_hi p =
     (let lhs = fst p; rhs = snd p in
      (lhs\<lparr> m_hash_buckets := m_hash_buckets rhs, m_index_chain := m_index_chain rhs,
            m_hash_buckets_size := m_hash_buckets_size rhs,
            m_index_chain_size := m_index_chain_size rhs,
            m_hash_mask := m_hash_mask rhs, m_lookup_mask := m_lookup_mask rhs,
            m_granularity := m_granularity rhs \<rparr>,
       rhs\<lparr> m_hash_buckets := m_hash_buckets lhs, m_index_chain := m_index_chain lhs,
            m_hash_buckets_size := m_hash_buckets_size lhs,
            m_index_chain_size := m_index_chain_size lhs,
            m_hash_mask := m_hash_mask lhs, m_lookup_mask := m_lookup_mask lhs,
            m_granularity := m_granularity lhs \<rparr>))"

text \<open>
  The move constructor delegates to the default constructor and swaps; the result is the
  pair (the new object, the moved-from object).
\<close>

definition move_construct :: "hash_index \<Rightarrow> error + (hash_index \<times> hash_index)" where
  "move_construct other = seq hash_index_default (\<lambda>this. Inr (swap_hi (this, other)))"

subsection \<open>Sequences of public operations\<close>

datatype op =
    Insert key_type index_type
  | Erase key_type index_type
  | InsertAtIndex key_type index_type
  | EraseAndRemoveIndex key_type index_type
  | Clear
  | ClearAndResize size_type size_type
  | ClearAndFree
  | SetGranularity size_type
  | ResizeIndexChain size_type

fun apply_op :: "hash_index \<Rightarrow> op \<Rightarrow> (error + hash_index) option" where
  "apply_op s (Insert key index) = Some (insert_hi s key index)"
| "apply_op s (Erase key index) = erase s key index"
| "apply_op s (InsertAtIndex key index) = Some (insert_at_index s key index)"
| "apply_op s (EraseAndRemoveIndex key index) = erase_and_remove_index s key index"
| "apply_op s Clear = Some (clear s)"
| "apply_op s (ClearAndResize n c) = Some (clear_and_resize s n c)"
| "apply_op s ClearAndFree = Some (Inr (clear_and_free s))"
| "apply_op s (SetGranularity g) = Some (set_granularity s g)"
| "apply_op s (ResizeIndexChain c) = Some (resize_index_chain s c)"

fun run :: "hash_index \<Rightarrow> op list \<Rightarrow> (error + hash_index) option" where
  "run s [] = Some (Inr s)"
| "run s (x # xs) = oseq (apply_op s x) (\<lambda>s1. run s1 xs)"

definition build :: "size_type \<Rightarrow> size_type \<Rightarrow> op list \<Rightarrow> (error + hash_index) option" where
  "build n c ops = oseq (Some (hash_index_sized n c)) (\<lambda>s. run s ops)"

text \<open>
  The pairs inserted and not subsequently erased by a sequence of \<open>insert\<close> and \<open>erase\<close>
  calls, and the usage under which the structure keeps them apart: a position is never
  the sentinel, is inserted only while it is not stored, and only stored pairs are erased.
\<close>

fun live :: "(key_type \<times> index_type) list \<Rightarrow> op list \<Rightarrow> (key_type \<times> index_type) list" where
  "live ps [] = ps"
| "live ps (Insert key index # ops) = live ((key, index) # ps) ops"
| "live ps (Erase key index # ops) = live (removeAll (key, index) ps) ops"
| "live ps (_ # ops) = live ps ops"

fun proper :: "(key_type \<times> index_type) list \<Rightarrow> op list \<Rightarrow> bool" where
  "proper ps [] = True"
| "proper ps (Insert key index # ops) =
     (index \<noteq> null_index \<and> index \<notin> snd ` set ps \<and> proper ((key, index) # ps) ops)"
| "proper ps (Erase key index # ops) =
     ((key, index) \<in> set ps \<and> proper (removeAll (key, index) ps) ops)"
| "proper ps (_ # ops) = False"

subsection \<open>Well-formed structures and chains\<close>

definition well_formed :: "hash_index \<Rightarrow> bool" where
  "well_formed s =
     (is_power_of_two (m_hash_buckets_size s) \<and> m_granularity s \<noteq> 0 \<and>
      (case m_hash_buckets s of
         None \<Rightarrow> m_index_chain s = None \<and> m_lookup_mask s = 0
       | Some bs \<Rightarrow>
           (case m_index_chain s of
              None \<Rightarrow> False
            | Some cs \<Rightarrow>
                length bs = unat (m_hash_buckets_size s) \<and>
                length cs = unat (m_index_chain_size s) \<and>
                m_hash_mask s = m_hash_buckets_size s - 1 \<and>
                m_lookup_mask s = NOT 0)))"

text \<open>\<open>path cs i xs\<close>: following the chain array \<open>cs\<close> from \<open>i\<close> visits exactly \<open>xs\<close>,
  all inside the array, and then meets the sentinel.\<close>

primrec path :: "index_type list \<Rightarrow> index_type \<Rightarrow> index_type list \<Rightarrow> bool" where
  "path cs i [] \<longleftrightarrow> i = null_index"
| "path cs i (x # xs) \<longleftrightarrow>
     i = x \<and> x \<noteq> null_index \<and> unat x < length cs \<and> path cs (cs ! unat x) xs"

definition bucket_of :: "hash_index \<Rightarrow> key_type \<Rightarrow> nat" where
  "bucket_of s key = unat (key AND m_hash_mask s)"

definition chains_ok :: "hash_index \<Rightarrow> (key_type \<times> index_type) list \<Rightarrow> bool" where
  "chains_ok s ps =
     (case m_hash_buckets s of
        None \<Rightarrow> ps = []
      | Some bs \<Rightarrow>
          distinct (map snd ps) \<and>
          (\<forall>b < length bs. \<exists>xs.
             path (deref (m_index_chain s)) (bs ! b) xs \<and>
             set xs = {p. \<exists>k. (k, p) \<in> set ps \<and> bucket_of s k = b}))"

text \<open>The two steps of \<open>insert\<close>: making room for the slot, then linking it.\<close>

definition ensure_slot :: "hash_index \<Rightarrow> index_type \<Rightarrow> error + hash_index" where
  "ensure_slot s index =
     (if \<not> is_allocated s then
        internal_allocate s (m_hash_buckets_size s)
          (if (ucast index :: size_type) \<ge> m_index_chain_size s
           then ucast (index + 1) else m_index_chain_size s)
      else if (ucast index :: size_type) \<ge> m_index_chain_size s then
        resize_index_chain s (ucast (index + 1))
      else Inr s)"

definition link_slot :: "hash_index \<Rightarrow> key_type \<Rightarrow> index_type \<Rightarrow> error + hash_index" where
  "link_slot s1 key index =
     (let k = key AND m_hash_mask s1 in
      seq (rd (m_hash_buckets s1) (unat k)) (\<lambda>head.
      seq (wr (m_index_chain s1) (unat index) head) (\<lambda>chain1.
      seq (wr (m_hash_buckets s1) (unat k) index) (\<lambda>buckets1.
        Inr (s1\<lparr> m_hash_buckets := buckets1, m_index_chain := chain1 \<rparr>)))))"

definition grown :: "nat \<Rightarrow> nat \<Rightarrow> nat" where
  "grown n g = (if n mod g = 0 then n else n + g - n mod g)"

text \<open>The length of an array, if the pointer owns one.\<close>

definition shape :: "index_array \<Rightarrow> nat option" where
  "shape a = map_option length a"

subsection \<open>Concrete structures used below\<close>

definition sentinel_row :: "index_type list" where
  "sentinel_row = [null_index, null_index, null_index, null_index]"

definition small_index :: "index_type list \<Rightarrow> index_type list \<Rightarrow> hash_index" where
  "small_index bs cs =
     \<lparr> m_hash_buckets = Some bs, m_index_chain = Some cs,
       m_hash_buckets_size = 4, m_index_chain_size = 4, m_hash_mask = 3,
       m_lookup_mask = NOT 0, m_granularity = 1024 \<rparr>"

definition one_index :: hash_index where
  "one_index = small_index [0, null_index, null_index, null_index] sentinel_row"

definition crowded_index :: hash_index where
  "crowded_index =
     \<lparr> m_hash_buckets = Some [11, null_index, null_index, null_index],
       m_index_chain = Some [null_index, 0, 1, 2, 3, 4, 5, 6, 7, 8, 9, 10,
                             null_index, null_index, null_index, null_index],
       m_hash_buckets_size = 4, m_index_chain_size = 16, m_hash_mask = 3,
       m_lookup_mask = NOT 0, m_granularity = 1024 \<rparr>"

definition fresh_index :: hash_index where
  "fresh_index =
     \<lparr> m_hash_buckets = None, m_index_chain = None,
       m_hash_buckets_size = 1024, m_index_chain_size = 1024, m_hash_mask = 1023,
       m_lookup_mask = 0, m_granularity = 1024 \<rparr>"

section \<open>Evaluation of the model\<close>

declare incr_loop.simps [simp del] decr_loop.simps [simp del] shift_left_loop.simps [simp del]
  shift_right_loop.simps [simp del] count_loop.simps [simp del] error_loop.simps [simp del]
  cmp_loop.simps [simp del]

lemma seq_Inl [simp]: "seq (Inl e) f = Inl e"
  by (simp add: seq_def)

lemma seq_Inr [simp]: "seq (Inr x) f = f x"
  by (simp add: seq_def)

lemma oseq_None [simp]: "oseq None f = None"
  by (simp add: oseq_def)

lemma oseq_Inl [simp]: "oseq (Some (Inl e)) f = Some (Inl e)"
  by (simp add: oseq_def)

lemma oseq_Inr [simp]: "oseq (Some (Inr x)) f = f x"
  by (simp add: oseq_def)

text \<open>The continuation of a step is only looked at once the step has a value.\<close>

lemma seq_weak_cong: "r = r' \<Longrightarrow> seq r f = seq r' f"
  by simp

lemma oseq_weak_cong: "r = r' \<Longrightarrow> oseq r f = oseq r' f"
  by simp

lemma replicate_numeral_ev: "replicate (numeral k) x = x # replicate (pred_numeral k) x"
  by (simp add: numeral_eq_Suc)

lemma list_update_numeral_ev: "(x # xs)[numeral k := v] = x # xs[pred_numeral k := v]"
  by (simp add: numeral_eq_Suc)

lemma unat_null_ev: "unat (- 1 :: 32 word) = 4294967295"
  by (simp add: unsigned_minus_1_eq_mask mask_eq_exp_minus_1)

lemma less_null_ev: "(x :: 32 word) < - 1 \<longleftrightarrow> x \<noteq> - 1"
  by (simp add: word_order.not_eq_extremum)

lemma null_le_ev: "(- 1 :: 32 word) \<le> x \<longleftrightarrow> x = - 1"
  by (simp add: word_order.extremum_unique)

lemmas cong_ev = seq_weak_cong oseq_weak_cong

lemmas ev = unat_null_ev less_null_ev null_le_ev
  rd_def wr_def deref_def is_allocated_def is_power_of_two_def internal_init_def
  hash_index_sized_def hash_index_default_def default_initial_size_def
  internal_allocate_def clear_and_free_def resize_index_chain_def first_def next_hi_def
  insert_hi_def null_index_def default_granularity_def Let_def
  replicate_numeral_ev list_update_numeral_ev set_granularity_def clear_and_resize_def
  erase_def erase_loop.simps walk.simps traversal_def insert_at_index_def
  erase_and_remove_index_def incr_loop.simps decr_loop.simps shift_left_loop.simps
  shift_right_loop.simps build_def small_index_def sentinel_row_def
  count_chain.simps count_loop.simps error_loop.simps compute_distribution_percentage_def
  cmp_loop.simps equals_def move_construct_def swap_hi_def crowded_index_def fresh_index_def one_index_def

section \<open>Words, chains and the operations on well-formed structures\<close>

lemma null_index_minus1: "null_index = - 1"
  by (simp add: null_index_def)

lemma unat_index_bound: "unat (i :: index_type) < 4294967296"
  using unsigned_less [of i, where 'a = nat] by simp

lemma unat_ucast_index [simp]: "unat (ucast (i :: index_type) :: size_type) = unat i"
proof -
  have "unat i < 2 ^ 64"
    using unat_index_bound [of i] by simp
  then show ?thesis
    by (simp add: unsigned_ucast_eq take_bit_nat_eq_self)
qed

lemma ucast_index_less: "(ucast (i :: index_type) :: size_type) < c \<longleftrightarrow> unat i < unat c"
  by (simp add: word_less_nat_alt)

lemma ucast_index_le: "c \<le> (ucast (i :: index_type) :: size_type) \<longleftrightarrow> unat c \<le> unat i"
  by (simp add: word_le_nat_alt)

lemma unat_index_Suc: "i \<noteq> null_index \<Longrightarrow> unat (i + 1) = unat i + 1"
  for i :: index_type
  unfolding null_index_minus1
  by (metis inc_less_eq_self_iff_eq linorder_linear unat_plus_simple unsigned_1)

lemma bucket_in_range: "n \<noteq> 0 \<Longrightarrow> unat (k AND (n - 1)) < unat n"
  for n :: size_type
  using less_eq_dec_iff unat_mono word_and_le1 by blast

lemma unat_inj_index: "unat (x :: index_type) = unat y \<longleftrightarrow> x = y"
  using word_unat_eq_iff [of x y] by blast

lemma round_up_unat:
  fixes n g :: size_type
  assumes g: "g \<noteq> 0" and n: "unat n \<le> 4294967296"
  shows "unat (if n mod g = 0 then n else n + g - n mod g) =
         (if unat n mod unat g = 0 then unat n else unat n + unat g - unat n mod unat g)"
proof -
  have md: "unat (n mod g) = unat n mod unat g"
    by (rule unat_mod)
  have z: "n mod g = 0 \<longleftrightarrow> unat n mod unat g = 0"
    using md by (metis unsigned_eq_0_iff)
  have gpos: "0 < unat g"
    using g by (simp add: unat_gt_0)
  have lt: "unat n mod unat g < unat g"
    using gpos by simp
  have le: "n mod g \<le> g"
    using lt md by (simp add: word_le_nat_alt)
  have sub: "unat (g - n mod g) = unat g - unat n mod unat g"
    using unat_sub [OF le] md by simp
  have small: "unat n + unat (g - n mod g) < 2 ^ 64"
  proof (cases "unat g \<le> unat n")
    case True
    then have "unat n + (unat g - unat n mod unat g) \<le> 4294967296 + 4294967296"
      using n by linarith
    then show ?thesis using sub by simp
  next
    case False
    then have "unat n mod unat g = unat n" by simp
    moreover have "unat g < 2 ^ 64"
      using unsigned_less [of g, where 'a = nat] by simp
    ultimately show ?thesis using sub False by simp
  qed
  have add: "unat (n + (g - n mod g)) = unat n + unat (g - n mod g)"
    using small unat_add_lem [of n "g - n mod g"] by simp
  have eq: "n + g - n mod g = n + (g - n mod g)"
    by simp
  show ?thesis
    using z add sub lt by (simp add: eq)
qed

subsection \<open>Chains as lists\<close>

lemma path_null [simp]: "path cs null_index xs \<longleftrightarrow> xs = []"
  by (cases xs) auto

lemma path_unique: "path cs i xs \<Longrightarrow> path cs i ys \<Longrightarrow> xs = ys"
proof (induction xs arbitrary: i ys)
  case Nil
  then show ?case by simp
next
  case (Cons x xs)
  then show ?case by (cases ys) auto
qed

lemma path_suffix: "path cs i (as @ bs) \<Longrightarrow> bs \<noteq> [] \<Longrightarrow> path cs (hd bs) bs"
proof (induction as arbitrary: i)
  case Nil
  then show ?case by (cases bs) auto
next
  case (Cons a as)
  from Cons.prems(1) have "path cs (cs ! unat a) (as @ bs)" by simp
  then show ?case using Cons.prems(2) by (rule Cons.IH)
qed

lemma path_head_notin_tail: "path cs i (x # xs) \<Longrightarrow> x \<notin> set xs"
proof
  assume p: "path cs i (x # xs)" and "x \<in> set xs"
  then obtain as bs where xs: "xs = as @ x # bs"
    by (auto simp: in_set_conv_decomp)
  with p have "path cs i ((x # as) @ (x # bs))" by simp
  from path_suffix [OF this] have "path cs x (x # bs)" by simp
  moreover from p have "path cs x (x # xs)" by simp
  ultimately have "x # bs = x # xs" by (rule path_unique)
  with xs show False by simp
qed

lemma path_distinct: "path cs i xs \<Longrightarrow> distinct xs"
proof (induction xs arbitrary: i)
  case Nil
  then show ?case by simp
next
  case (Cons x xs)
  from Cons.prems have "x \<notin> set xs" by (rule path_head_notin_tail)
  moreover from Cons.prems have "path cs (cs ! unat x) xs" by simp
  then have "distinct xs" by (rule Cons.IH)
  ultimately show ?case by simp
qed

lemma path_update_notin:
  "p \<notin> set xs \<Longrightarrow> path (cs[unat p := v]) i xs = path cs i xs"
proof (induction xs arbitrary: i)
  case Nil
  then show ?case by simp
next
  case (Cons x xs)
  then have "unat x \<noteq> unat p" by (auto simp: unat_inj_index)
  with Cons show ?case by auto
qed

lemma path_append_array: "path cs i xs \<Longrightarrow> path (cs @ ys) i xs"
  by (induction xs arbitrary: i) (auto simp: nth_append)

lemma path_in_range: "path cs i xs \<Longrightarrow> x \<in> set xs \<Longrightarrow> x \<noteq> null_index \<and> unat x < length cs"
  by (induction xs arbitrary: i) auto

lemma path_replicate_null: "path (replicate n null_index) null_index []"
  by simp

text \<open>Unlinking an element that is not the head.\<close>

lemma path_unlink:
  "path cs i (as @ p # rest) \<Longrightarrow> as \<noteq> [] \<Longrightarrow>
   path (cs[unat (last as) := cs ! unat p, unat p := v]) i (as @ rest)"
proof (induction as arbitrary: i)
  case Nil
  then show ?case by simp
next
  case (Cons a as)
  from Cons.prems(1) have d: "distinct ((a # as) @ p # rest)" by (rule path_distinct)
  from Cons.prems(1) have a: "i = a" "a \<noteq> null_index" "unat a < length cs"
    and tl: "path cs (cs ! unat a) (as @ p # rest)" by auto
  from d have ap: "unat a \<noteq> unat p" by (auto simp: unat_inj_index)
  show ?case
  proof (cases "as = []")
    case True
    with tl have p: "cs ! unat a = p" "unat p < length cs" and r: "path cs (cs ! unat p) rest"
      by auto
    from d True have "a \<notin> set rest" "p \<notin> set rest" by auto
    then have "path (cs[unat a := cs ! unat p, unat p := v]) (cs ! unat p) rest"
      using r by (simp add: path_update_notin)
    with a ap p True show ?thesis by simp
  next
    case False
    from d False have la: "unat (last as) \<noteq> unat a"
      by (auto simp: unat_inj_index)
    from Cons.IH [OF tl False]
    have "path (cs[unat (last as) := cs ! unat p, unat p := v]) (cs ! unat a) (as @ rest)" .
    with a ap la False show ?thesis by simp
  qed
qed

lemma rd_Some: "i < length xs \<Longrightarrow> rd (Some xs) i = Inr (xs ! i)"
  by (simp add: rd_def deref_def)

lemma wr_Some: "i < length xs \<Longrightarrow> wr (Some xs) i v = Inr (Some (xs[i := v]))"
  by (simp add: wr_def)

lemma next_hi_allocated:
  assumes "m_index_chain s = Some cs" "length cs = unat (m_index_chain_size s)"
    "m_lookup_mask s = NOT 0"
  shows "next_hi s i = (if unat i < length cs then Inr (cs ! unat i) else Inl AssertionFailed)"
  using assms by (simp add: next_hi_def ucast_index_less rd_Some)

lemma walk_path:
  assumes "m_index_chain s = Some cs" "length cs = unat (m_index_chain_size s)"
    "m_lookup_mask s = NOT 0"
  shows "path cs i xs \<Longrightarrow> walk s i = Some (Inr xs)"
proof (induction xs arbitrary: i)
  case Nil
  then show ?case by (subst walk.simps) simp
next
  case (Cons x xs)
  then have "walk s (cs ! unat x) = Some (Inr xs)" by simp
  with Cons.prems show ?case
    by (subst walk.simps) (simp add: next_hi_allocated [OF assms])
qed

lemma path_walk:
  assumes "m_index_chain s = Some cs" "length cs = unat (m_index_chain_size s)"
    "m_lookup_mask s = NOT 0"
  shows "walk s i = Some (Inr xs) \<Longrightarrow> path cs i xs"
proof (induction xs arbitrary: i)
  case Nil
  have "walk s i = (if i = null_index then Some (Inr [])
      else case next_hi s i of Inl e \<Rightarrow> Some (Inl e)
           | Inr j \<Rightarrow> Option.bind (walk s j) (\<lambda>r. Some (seq r (\<lambda>xs. Inr (i # xs)))))"
    by (rule walk.simps)
  with Nil show ?case
    by (auto simp: seq_def split: if_splits sum.splits Option.bind_splits)
next
  case (Cons x xs)
  have "walk s i = (if i = null_index then Some (Inr [])
      else case next_hi s i of Inl e \<Rightarrow> Some (Inl e)
           | Inr j \<Rightarrow> Option.bind (walk s j) (\<lambda>r. Some (seq r (\<lambda>xs. Inr (i # xs)))))"
    by (rule walk.simps)
  with Cons.prems have i: "i \<noteq> null_index" "i = x"
    and "\<exists>j. next_hi s i = Inr j \<and> walk s j = Some (Inr xs)"
    by (auto simp: seq_def split: if_splits sum.splits Option.bind_splits)
  then obtain j where j: "next_hi s i = Inr j" "walk s j = Some (Inr xs)" by blast
  from j(1) have "unat i < length cs" "j = cs ! unat i"
    by (auto simp: next_hi_allocated [OF assms] split: if_splits)
  with i Cons.IH [OF j(2)] show ?case by simp
qed

lemma erase_loop_absent:
  "path cs i xs \<Longrightarrow> index \<notin> set xs \<Longrightarrow> index \<noteq> null_index \<Longrightarrow>
   erase_loop (Some cs) i index = Some (Inr (Some cs))"
proof (induction xs arbitrary: i)
  case Nil
  then show ?case by (subst erase_loop.simps) simp
next
  case (Cons x xs)
  from Cons.prems have x: "i = x" "x \<noteq> null_index" "unat x < length cs"
    and tl: "path cs (cs ! unat x) xs" by auto
  from tl Cons.prems have "cs ! unat x \<noteq> index" by (cases xs) auto
  moreover from Cons.IH [OF tl] Cons.prems
  have "erase_loop (Some cs) (cs ! unat x) index = Some (Inr (Some cs))" by simp
  ultimately show ?case using x
    by (subst erase_loop.simps) (simp add: rd_Some)
qed

lemma erase_loop_present:
  "path cs i (as @ index # rest) \<Longrightarrow> as \<noteq> [] \<Longrightarrow> index \<notin> set as \<Longrightarrow>
   erase_loop (Some cs) i index = Some (Inr (Some (cs[unat (last as) := cs ! unat index])))"
proof (induction as arbitrary: i)
  case Nil
  then show ?case by simp
next
  case (Cons a as)
  from Cons.prems have a: "i = a" "a \<noteq> null_index" "unat a < length cs"
    and tl: "path cs (cs ! unat a) (as @ index # rest)" by auto
  show ?case
  proof (cases "as = []")
    case True
    with tl have "cs ! unat a = index" "unat index < length cs" by auto
    with a True show ?thesis
      by (subst erase_loop.simps) (simp add: rd_Some wr_Some)
  next
    case False
    with tl Cons.prems have ne: "cs ! unat a \<noteq> index" by (cases as) auto
    from Cons.IH [OF tl False] Cons.prems
    have "erase_loop (Some cs) (cs ! unat a) index =
            Some (Inr (Some (cs[unat (last as) := cs ! unat index])))" by simp
    with a ne False show ?thesis
      by (subst erase_loop.simps) (simp add: rd_Some)
  qed
qed

lemma well_formed_allocatedD:
  assumes "well_formed s" "m_hash_buckets s = Some bs"
  obtains cs where "m_index_chain s = Some cs" "length bs = unat (m_hash_buckets_size s)"
    "length cs = unat (m_index_chain_size s)" "m_hash_mask s = m_hash_buckets_size s - 1"
    "m_lookup_mask s = NOT 0" "m_hash_buckets_size s \<noteq> 0"
  using assms by (auto simp: well_formed_def is_power_of_two_def split: option.splits)

lemma bucket_of_less:
  assumes "well_formed s" "m_hash_buckets s = Some bs"
  shows "bucket_of s key < length bs"
  using assms(1) assms(2)
  by (rule well_formed_allocatedD) (simp add: bucket_of_def bucket_in_range)

lemma path_nonempty_head: "path cs i xs \<Longrightarrow> xs \<noteq> [] \<Longrightarrow> hd xs = i"
  by (cases xs) auto

lemma erase_present:
  assumes wf: "well_formed s" and bs: "m_hash_buckets s = Some bs" and cs: "m_index_chain s = Some cs"
    and p: "path cs (bs ! bucket_of s key) xs" and mem: "index \<in> set xs"
  shows "\<exists>bs' cs'. erase s key index =
            Some (Inr (s\<lparr> m_hash_buckets := Some bs', m_index_chain := Some cs' \<rparr>))
          \<and> length bs' = length bs \<and> length cs' = length cs
          \<and> path cs' (bs' ! bucket_of s key) (remove1 index xs)
          \<and> (\<forall>b. b \<noteq> bucket_of s key \<longrightarrow> bs' ! b = bs ! b)
          \<and> (\<forall>i ys. path cs i ys \<longrightarrow> set ys \<inter> set xs = {} \<longrightarrow> path cs' i ys)"
proof -
  from wf bs cs have len: "length cs = unat (m_index_chain_size s)"
    by (auto elim: well_formed_allocatedD)
  have b: "bucket_of s key < length bs" using wf bs by (rule bucket_of_less)
  from path_in_range [OF p mem] have ix: "index \<noteq> null_index" "unat index < length cs" by auto
  have d: "distinct xs" using p by (rule path_distinct)
  have pre: "(ucast index :: size_type) < m_index_chain_size s" "is_allocated s"
    using ix len bs by (simp_all add: ucast_index_less is_allocated_def)
  show ?thesis
  proof (cases "bs ! bucket_of s key = index")
    case True
    from mem have "xs \<noteq> []" by auto
    with p True obtain rest where xs: "xs = index # rest"
      by (cases xs) auto
    with p d have rest: "path cs (cs ! unat index) rest" "index \<notin> set rest" by auto
    have e: "erase s key index = Some (Inr (s\<lparr> m_hash_buckets := Some (bs[bucket_of s key := cs ! unat index]),
                m_index_chain := Some (cs[unat index := null_index]) \<rparr>))"
      using pre True b ix bs cs
      by (simp add: erase_def Let_def rd_Some wr_Some bucket_of_def)
    have "path (cs[unat index := null_index]) (cs ! unat index) rest"
      using rest by (simp add: path_update_notin)
    moreover have "\<forall>i ys. path cs i ys \<longrightarrow> set ys \<inter> set xs = {} \<longrightarrow> path (cs[unat index := null_index]) i ys"
      using xs by (auto simp: path_update_notin)
    ultimately show ?thesis
      using e b xs by (intro exI conjI) (assumption | simp)+
  next
    case False
    from mem obtain as rest where xs: "xs = as @ index # rest" and nas: "index \<notin> set as"
      by (auto dest: split_list_first)
    from p False xs have as: "as \<noteq> []" by (cases as) auto
    from p xs have p': "path cs (bs ! bucket_of s key) (as @ index # rest)" by simp
    have el: "erase_loop (Some cs) (bs ! bucket_of s key) index =
            Some (Inr (Some (cs[unat (last as) := cs ! unat index])))"
      using p' as nas by (rule erase_loop_present)
    have e: "erase s key index = Some (Inr (s\<lparr> m_hash_buckets := Some bs,
                m_index_chain := Some (cs[unat (last as) := cs ! unat index, unat index := null_index]) \<rparr>))"
      using pre False b ix bs cs el
      by (simp add: erase_def Let_def rd_Some wr_Some bucket_of_def)
    have r: "remove1 index xs = as @ rest"
      using xs nas by (simp add: remove1_append)
    have "path (cs[unat (last as) := cs ! unat index, unat index := null_index]) (bs ! bucket_of s key) (as @ rest)"
      using p' as by (rule path_unlink)
    moreover have "\<forall>i ys. path cs i ys \<longrightarrow> set ys \<inter> set xs = {} \<longrightarrow>
        path (cs[unat (last as) := cs ! unat index, unat index := null_index]) i ys"
    proof (intro allI impI)
      fix i ys assume ys: "path cs i ys" "set ys \<inter> set xs = {}"
      from as xs have "last as \<in> set xs" by simp
      with ys(2) mem have "last as \<notin> set ys" "index \<notin> set ys" by auto
      with ys(1) show "path (cs[unat (last as) := cs ! unat index, unat index := null_index]) i ys"
        by (simp add: path_update_notin)
    qed
    ultimately show ?thesis
      using e r by (intro exI conjI) (assumption | simp)+
  qed
qed

lemma erase_absent:
  assumes wf: "well_formed s" and bs: "m_hash_buckets s = Some bs" and cs: "m_index_chain s = Some cs"
    and p: "path cs (bs ! bucket_of s key) xs" and nmem: "index \<notin> set xs"
    and ix: "index \<noteq> null_index" "unat index < length cs"
  shows "erase s key index = Some (Inr (s\<lparr> m_index_chain := Some (cs[unat index := null_index]) \<rparr>))"
proof -
  from wf bs cs have len: "length cs = unat (m_index_chain_size s)"
    by (auto elim: well_formed_allocatedD)
  have b: "bucket_of s key < length bs" using wf bs by (rule bucket_of_less)
  have pre: "(ucast index :: size_type) < m_index_chain_size s" "is_allocated s"
    using ix len bs by (simp_all add: ucast_index_less is_allocated_def)
  have ne: "bs ! bucket_of s key \<noteq> index"
    using p nmem ix by (cases xs) auto
  have el: "erase_loop (Some cs) (bs ! bucket_of s key) index = Some (Inr (Some cs))"
    using p nmem ix(1) by (rule erase_loop_absent)
  have "s\<lparr> m_hash_buckets := Some bs, m_index_chain := Some (cs[unat index := null_index]) \<rparr>
        = s\<lparr> m_index_chain := Some (cs[unat index := null_index]) \<rparr>"
    using bs by simp
  then show ?thesis
    using pre ne b ix bs cs el
    by (simp add: erase_def Let_def rd_Some wr_Some bucket_of_def)
qed

lemma first_allocated:
  assumes "well_formed s" "m_hash_buckets s = Some bs"
  shows "first s key = Inr (bs ! bucket_of s key)"
proof -
  from assms obtain cs where "m_lookup_mask s = NOT 0" by (rule well_formed_allocatedD)
  moreover have "bucket_of s key < length bs" using assms by (rule bucket_of_less)
  ultimately show ?thesis using assms(2)
    by (simp add: first_def rd_Some bucket_of_def)
qed

lemma traversal_allocated:
  assumes "well_formed s" "m_hash_buckets s = Some bs"
  shows "traversal s key = walk s (bs ! bucket_of s key)"
  using first_allocated [OF assms] by (simp add: traversal_def)

lemma traversal_unallocated:
  assumes "well_formed s" "\<not> is_allocated s"
  shows "traversal s key = Some (Inr [])"
proof -
  from assms have "m_hash_buckets s = None" "m_lookup_mask s = 0"
    by (auto simp: well_formed_def is_allocated_def)
  then have "first s key = Inr null_index"
    by (simp add: first_def rd_def deref_def)
  then show ?thesis
    by (simp add: traversal_def) (subst walk.simps, simp)
qed

lemma well_formed_arrays_update:
  assumes "well_formed s" "m_hash_buckets s = Some bs" "m_index_chain s = Some cs"
    "length bs' = length bs" "length cs' = length cs"
  shows "well_formed (s\<lparr> m_hash_buckets := Some bs', m_index_chain := Some cs' \<rparr>)"
  using assms by (simp add: well_formed_def)

lemma insert_hi_split:
  "insert_hi s key index = seq (ensure_slot s index) (\<lambda>s1. link_slot s1 key index)"
  by (simp add: insert_hi_def ensure_slot_def link_slot_def)

lemma grown_ge: "0 < g \<Longrightarrow> n \<le> grown n g"
proof -
  assume "0 < g"
  then have "n mod g < g" by simp
  then have "n + g - n mod g = n + (g - n mod g)" by simp
  then show ?thesis by (simp add: grown_def)
qed

lemma unat_succ_cast: "index \<noteq> null_index \<Longrightarrow> unat (ucast (index + 1) :: size_type) = unat index + 1"
  for index :: index_type
  by (simp add: unat_index_Suc)

lemma resize_grows:
  assumes wf: "well_formed s" and bs: "m_hash_buckets s = Some bs" and cs: "m_index_chain s = Some cs"
    and ix: "index \<noteq> null_index" and ge: "m_index_chain_size s \<le> ucast index"
  shows "\<exists>c k. resize_index_chain s (ucast (index + 1)) =
            Inr (s\<lparr> m_index_chain := Some (cs @ replicate k null_index), m_index_chain_size := c \<rparr>)
          \<and> unat c = grown (unat index + 1) (unat (m_granularity s))
          \<and> length cs + k = unat c"
proof -
  let ?n = "ucast (index + 1) :: size_type"
  let ?g = "m_granularity s"
  let ?c = "if ?n mod ?g = 0 then ?n else ?n + ?g - ?n mod ?g"
  from wf bs cs have len: "length cs = unat (m_index_chain_size s)"
    by (auto elim: well_formed_allocatedD)
  from wf have g: "?g \<noteq> 0" by (simp add: well_formed_def)
  then have gpos: "0 < unat ?g" by (simp add: unat_gt_0)
  have n: "unat ?n = unat index + 1" using ix by (rule unat_succ_cast)
  have nb: "unat ?n \<le> 4294967296" using n unat_index_bound [of index] by simp
  have c: "unat ?c = grown (unat index + 1) (unat ?g)"
    using round_up_unat [OF g nb] n by (simp add: grown_def)
  from ge have old: "unat (m_index_chain_size s) \<le> unat index" by (simp add: ucast_index_le)
  then have gt: "\<not> ?n \<le> m_index_chain_size s" using n by (simp add: word_le_nat_alt)
  have cge: "unat index + 1 \<le> unat ?c" using c grown_ge [OF gpos] by simp
  then have nl: "\<not> ?c < m_index_chain_size s" using old by (simp add: word_less_nat_alt)
  then have "m_index_chain_size s \<le> ?c" by simp
  then have sub: "unat (?c - m_index_chain_size s) = unat ?c - unat (m_index_chain_size s)"
    by (rule unat_sub)
  have "resize_index_chain s ?n = Inr (s\<lparr> m_index_chain :=
           Some (cs @ replicate (unat (?c - m_index_chain_size s)) null_index), m_index_chain_size := ?c \<rparr>)"
    using gt g cs len nl by (simp add: resize_index_chain_def Let_def)
  moreover have "length cs + unat (?c - m_index_chain_size s) = unat ?c"
    using sub len old cge by simp
  ultimately show ?thesis using c by blast
qed

lemma ensure_slot_unallocated:
  assumes wf: "well_formed s" and un: "\<not> is_allocated s" and ix: "index \<noteq> null_index"
  shows "\<exists>c. ensure_slot s index =
           Inr (s\<lparr> m_hash_buckets := Some (replicate (unat (m_hash_buckets_size s)) null_index),
                   m_index_chain := Some (replicate (unat c) null_index),
                   m_index_chain_size := c,
                   m_hash_mask := m_hash_buckets_size s - 1,
                   m_lookup_mask := NOT 0 \<rparr>)
         \<and> unat index < unat c"
proof -
  let ?c = "if (ucast index :: size_type) \<ge> m_index_chain_size s
           then ucast (index + 1) else m_index_chain_size s"
  from wf have p: "is_power_of_two (m_hash_buckets_size s)" by (simp add: well_formed_def)
  have "unat index < unat ?c"
    using ix by (auto simp: unat_index_Suc ucast_index_le)
  moreover have "ensure_slot s index =
           Inr (s\<lparr> m_hash_buckets := Some (replicate (unat (m_hash_buckets_size s)) null_index),
                   m_index_chain := Some (replicate (unat ?c) null_index),
                   m_index_chain_size := ?c,
                   m_hash_mask := m_hash_buckets_size s - 1,
                   m_lookup_mask := NOT 0 \<rparr>)"
    using un p by (simp add: ensure_slot_def internal_allocate_def)
  ultimately show ?thesis by blast
qed

lemma link_slot_allocated:
  assumes "well_formed s" "m_hash_buckets s = Some bs" "m_index_chain s = Some cs" "unat index < length cs"
  shows "link_slot s key index =
           Inr (s\<lparr> m_hash_buckets := Some (bs[bucket_of s key := index]),
                   m_index_chain := Some (cs[unat index := bs ! bucket_of s key]) \<rparr>)"
  using assms bucket_of_less [OF assms(1,2), of key]
  by (simp add: link_slot_def Let_def rd_Some wr_Some bucket_of_def)

lemma snd_determines_key:
  "distinct (map snd ps) \<Longrightarrow> (k1, p) \<in> set ps \<Longrightarrow> (k2, p) \<in> set ps \<Longrightarrow> k1 = k2"
proof -
  assume "distinct (map snd ps)" "(k1, p) \<in> set ps" "(k2, p) \<in> set ps"
  then have "inj_on snd (set ps)" by (simp add: distinct_map)
  from inj_onD [OF this, of "(k1, p)" "(k2, p)"] \<open>(k1, p) \<in> set ps\<close> \<open>(k2, p) \<in> set ps\<close>
  show ?thesis by simp
qed

lemma chains_okD:
  assumes "chains_ok s ps" "m_hash_buckets s = Some bs" "m_index_chain s = Some cs" "b < length bs"
  obtains xs where "path cs (bs ! b) xs"
    "set xs = {p. \<exists>k. (k, p) \<in> set ps \<and> bucket_of s k = b}"
  using assms by (auto simp: chains_ok_def deref_def)

lemma chains_ok_distinct:
  "chains_ok s ps \<Longrightarrow> distinct (map snd ps)"
  by (auto simp: chains_ok_def split: option.splits)

lemma chains_okI:
  assumes "m_hash_buckets s = Some bs" "m_index_chain s = Some cs" "distinct (map snd ps)"
    "\<And>b. b < length bs \<Longrightarrow> \<exists>xs. path cs (bs ! b) xs \<and>
        set xs = {p. \<exists>k. (k, p) \<in> set ps \<and> bucket_of s k = b}"
  shows "chains_ok s ps"
  using assms by (simp add: chains_ok_def deref_def)

lemma link_chains_ok:
  assumes wf: "well_formed s" and bs: "m_hash_buckets s = Some bs" and cs: "m_index_chain s = Some cs"
    and r: "unat index < length cs" and ix: "index \<noteq> null_index"
    and fresh: "index \<notin> snd ` set ps" and ok: "chains_ok s ps"
  shows "chains_ok (s\<lparr> m_hash_buckets := Some (bs[bucket_of s key := index]),
                        m_index_chain := Some (cs[unat index := bs ! bucket_of s key]) \<rparr>)
                   ((key, index) # ps)"
    (is "chains_ok ?s' _")
proof (rule chains_okI)
  show "m_hash_buckets ?s' = Some (bs[bucket_of s key := index])" by simp
  show "m_index_chain ?s' = Some (cs[unat index := bs ! bucket_of s key])" by simp
  show "distinct (map snd ((key, index) # ps))"
    using fresh chains_ok_distinct [OF ok] by simp
next
  fix b assume "b < length (bs[bucket_of s key := index])"
  then have b: "b < length bs" by simp
  have bo: "\<And>k. bucket_of ?s' k = bucket_of s k" by (simp add: bucket_of_def)
  from ok bs cs b obtain xs where p: "path cs (bs ! b) xs"
    and sx: "set xs = {p. \<exists>k. (k, p) \<in> set ps \<and> bucket_of s k = b}" by (rule chains_okD)
  from sx fresh have nx: "index \<notin> set xs" by force
  then have p': "path (cs[unat index := bs ! bucket_of s key]) (bs ! b) xs"
    using p by (simp add: path_update_notin)
  show "\<exists>xs. path (cs[unat index := bs ! bucket_of s key]) (bs[bucket_of s key := index] ! b) xs \<and>
          set xs = {p. \<exists>k. (k, p) \<in> set ((key, index) # ps) \<and> bucket_of ?s' k = b}"
  proof (cases "b = bucket_of s key")
    case True
    have "path (cs[unat index := bs ! bucket_of s key]) index (index # xs)"
      using p' r ix True by simp
    moreover have "set (index # xs) = {p. \<exists>k. (k, p) \<in> set ((key, index) # ps) \<and> bucket_of ?s' k = b}"
      using sx True by (auto simp: bo)
    moreover have "bs[bucket_of s key := index] ! b = index" using True b by simp
    ultimately show ?thesis by (intro exI [of _ "index # xs"]) (simp only: simp_thms)
  next
    case False
    have "set xs = {p. \<exists>k. (k, p) \<in> set ((key, index) # ps) \<and> bucket_of ?s' k = b}"
      using sx False by (auto simp: bo)
    moreover have "bs[bucket_of s key := index] ! b = bs ! b" using False by simp
    ultimately show ?thesis using p' by (intro exI [of _ xs]) (simp only: simp_thms)
  qed
qed

lemma chains_ok_insert:
  assumes wf: "well_formed s" and ok: "chains_ok s ps" and ix: "index \<noteq> null_index"
    and fresh: "index \<notin> snd ` set ps"
  shows "\<exists>s'. insert_hi s key index = Inr s' \<and> well_formed s' \<and> chains_ok s' ((key, index) # ps)"
proof (cases "is_allocated s")
  case False
  from ensure_slot_unallocated [OF wf False ix]
  obtain c where e: "ensure_slot s index =
           Inr (s\<lparr> m_hash_buckets := Some (replicate (unat (m_hash_buckets_size s)) null_index),
                   m_index_chain := Some (replicate (unat c) null_index),
                   m_index_chain_size := c,
                   m_hash_mask := m_hash_buckets_size s - 1,
                   m_lookup_mask := NOT 0 \<rparr>)"
    and r: "unat index < unat c" by blast
  let ?bs = "replicate (unat (m_hash_buckets_size s)) null_index"
  let ?cs = "replicate (unat c) null_index"
  let ?s1 = "s\<lparr> m_hash_buckets := Some ?bs, m_index_chain := Some ?cs, m_index_chain_size := c,
                m_hash_mask := m_hash_buckets_size s - 1, m_lookup_mask := NOT 0 \<rparr>"
  have wf1: "well_formed ?s1" using wf by (simp add: well_formed_def)
  from ok False have ps: "ps = []" by (simp add: chains_ok_def is_allocated_def)
  have ok1: "chains_ok ?s1 ps"
    by (rule chains_okI [where bs = ?bs and cs = ?cs]) (simp_all add: ps)
  have l: "link_slot ?s1 key index =
      Inr (?s1\<lparr> m_hash_buckets := Some (?bs[bucket_of ?s1 key := index]),
                 m_index_chain := Some (?cs[unat index := ?bs ! bucket_of ?s1 key]) \<rparr>)"
    using wf1 _ _ _ by (rule link_slot_allocated) (simp_all add: r)
  have "chains_ok (?s1\<lparr> m_hash_buckets := Some (?bs[bucket_of ?s1 key := index]),
                 m_index_chain := Some (?cs[unat index := ?bs ! bucket_of ?s1 key]) \<rparr>) ((key, index) # ps)"
    using wf1 _ _ _ ix fresh ok1 by (rule link_chains_ok) (simp_all add: r)
  moreover have "well_formed (?s1\<lparr> m_hash_buckets := Some (?bs[bucket_of ?s1 key := index]),
                 m_index_chain := Some (?cs[unat index := ?bs ! bucket_of ?s1 key]) \<rparr>)"
    using wf1 by (simp add: well_formed_def)
  ultimately show ?thesis using e l by (simp add: insert_hi_split)
next
  case True
  then obtain bs where bs: "m_hash_buckets s = Some bs" by (auto simp: is_allocated_def)
  from wf bs obtain cs where cs: "m_index_chain s = Some cs"
    and len: "length cs = unat (m_index_chain_size s)" by (rule well_formed_allocatedD)
  have "\<exists>k c. ensure_slot s index =
          Inr (s\<lparr> m_index_chain := Some (cs @ replicate k null_index), m_index_chain_size := c \<rparr>)
        \<and> length cs + k = unat c \<and> unat index < unat c"
  proof (cases "m_index_chain_size s \<le> ucast index")
    case ge: True
    from resize_grows [OF wf bs cs ix ge]
    obtain c k where r: "resize_index_chain s (ucast (index + 1)) =
          Inr (s\<lparr> m_index_chain := Some (cs @ replicate k null_index), m_index_chain_size := c \<rparr>)"
      and c: "unat c = grown (unat index + 1) (unat (m_granularity s))"
      and l: "length cs + k = unat c" by blast
    from wf have "0 < unat (m_granularity s)" by (simp add: well_formed_def unat_gt_0)
    from grown_ge [OF this, of "unat index + 1"] c have "unat index < unat c" by simp
    with r l True ge show ?thesis by (auto simp: ensure_slot_def)
  next
    case lt: False
    then have "unat index < unat (m_index_chain_size s)" by (simp add: ucast_index_le)
    moreover have "s\<lparr> m_index_chain := Some (cs @ replicate 0 null_index),
                      m_index_chain_size := m_index_chain_size s \<rparr> = s"
      using cs by simp
    ultimately show ?thesis using True lt len
      by (intro exI [of _ 0] exI [of _ "m_index_chain_size s"]) (simp add: ensure_slot_def)
  qed
  then obtain k c where e: "ensure_slot s index =
          Inr (s\<lparr> m_index_chain := Some (cs @ replicate k null_index), m_index_chain_size := c \<rparr>)"
    and l: "length cs + k = unat c" and r: "unat index < unat c" by blast
  let ?cs = "cs @ replicate k null_index"
  let ?s1 = "s\<lparr> m_index_chain := Some ?cs, m_index_chain_size := c \<rparr>"
  have wf1: "well_formed ?s1" using wf bs cs l by (simp add: well_formed_def)
  have bo: "\<And>k. bucket_of ?s1 k = bucket_of s k" by (simp add: bucket_of_def)
  have ok1: "chains_ok ?s1 ps"
  proof (rule chains_okI [where bs = bs and cs = ?cs])
    show "distinct (map snd ps)" using ok by (rule chains_ok_distinct)
  next
    fix b assume b: "b < length bs"
    from ok bs cs b obtain xs where "path cs (bs ! b) xs"
      "set xs = {p. \<exists>k. (k, p) \<in> set ps \<and> bucket_of s k = b}" by (rule chains_okD)
    then show "\<exists>xs. path ?cs (bs ! b) xs \<and> set xs = {p. \<exists>k. (k, p) \<in> set ps \<and> bucket_of ?s1 k = b}"
      by (auto simp: bo intro: path_append_array)
  qed (simp_all add: bs)
  have rng: "unat index < length ?cs" using l r by simp
  have lk: "link_slot ?s1 key index =
      Inr (?s1\<lparr> m_hash_buckets := Some (bs[bucket_of ?s1 key := index]),
                 m_index_chain := Some (?cs[unat index := bs ! bucket_of ?s1 key]) \<rparr>)"
    using wf1 _ _ rng by (rule link_slot_allocated) (simp_all add: bs)
  have "chains_ok (?s1\<lparr> m_hash_buckets := Some (bs[bucket_of ?s1 key := index]),
                 m_index_chain := Some (?cs[unat index := bs ! bucket_of ?s1 key]) \<rparr>) ((key, index) # ps)"
    using wf1 _ _ rng ix fresh ok1 by (rule link_chains_ok) (simp_all add: bs)
  moreover have "well_formed (?s1\<lparr> m_hash_buckets := Some (bs[bucket_of ?s1 key := index]),
                 m_index_chain := Some (?cs[unat index := bs ! bucket_of ?s1 key]) \<rparr>)"
    using wf1 bs by (simp add: well_formed_def)
  ultimately show ?thesis using e lk by (simp add: insert_hi_split)
qed

lemma chains_ok_erase:
  assumes wf: "well_formed s" and ok: "chains_ok s ps" and mem: "(key, index) \<in> set ps"
  shows "\<exists>s'. erase s key index = Some (Inr s') \<and> well_formed s'
              \<and> chains_ok s' (removeAll (key, index) ps)"
proof -
  from ok mem obtain bs where bs: "m_hash_buckets s = Some bs"
    by (cases "m_hash_buckets s") (auto simp: chains_ok_def)
  from wf bs obtain cs where cs: "m_index_chain s = Some cs" by (rule well_formed_allocatedD)
  have d: "distinct (map snd ps)" using ok by (rule chains_ok_distinct)
  let ?b = "bucket_of s key"
  have b: "?b < length bs" using wf bs by (rule bucket_of_less)
  from ok bs cs b obtain xs where p: "path cs (bs ! ?b) xs"
    and sx: "set xs = {p. \<exists>k. (k, p) \<in> set ps \<and> bucket_of s k = ?b}" by (rule chains_okD)
  from sx mem have ix: "index \<in> set xs" by auto
  from erase_present [OF wf bs cs p ix]
  obtain bs' cs' where e: "erase s key index =
        Some (Inr (s\<lparr> m_hash_buckets := Some bs', m_index_chain := Some cs' \<rparr>))"
    and l: "length bs' = length bs" "length cs' = length cs"
    and p': "path cs' (bs' ! ?b) (remove1 index xs)"
    and oth: "\<And>b. b \<noteq> ?b \<Longrightarrow> bs' ! b = bs ! b"
    and keep: "\<And>i ys. path cs i ys \<Longrightarrow> set ys \<inter> set xs = {} \<Longrightarrow> path cs' i ys"
    by blast
  let ?s' = "s\<lparr> m_hash_buckets := Some bs', m_index_chain := Some cs' \<rparr>"
  let ?ps' = "removeAll (key, index) ps"
  have wf': "well_formed ?s'" using wf bs cs l by (rule well_formed_arrays_update)
  have bo: "\<And>k. bucket_of ?s' k = bucket_of s k" by (simp add: bucket_of_def)
  have d': "distinct (map snd ?ps')"
    using d by (simp add: removeAll_filter_not_eq distinct_map_filter)
  have only: "k = key" if "(k, index) \<in> set ps" for k
    using d that mem by (rule snd_determines_key)
  have "chains_ok ?s' ?ps'"
  proof (rule chains_okI [where bs = bs' and cs = cs'])
    fix b' assume "b' < length bs'"
    then have b': "b' < length bs" using l by simp
    show "\<exists>ys. path cs' (bs' ! b') ys \<and>
            set ys = {p. \<exists>k. (k, p) \<in> set ?ps' \<and> bucket_of ?s' k = b'}"
    proof (cases "b' = ?b")
      case True
      have "set (remove1 index xs) = set xs - {index}"
        using path_distinct [OF p] by (rule set_remove1_eq)
      also have "\<dots> = {p. \<exists>k. (k, p) \<in> set ?ps' \<and> bucket_of ?s' k = b'}"
        using sx True only by (auto simp: bo)
      finally show ?thesis using p' True by (intro exI [of _ "remove1 index xs"]) simp
    next
      case False
      from ok bs cs b' obtain ys where q: "path cs (bs ! b') ys"
        and sy: "set ys = {p. \<exists>k. (k, p) \<in> set ps \<and> bucket_of s k = b'}" by (rule chains_okD)
      have "set ys \<inter> set xs = {}"
      proof (rule ccontr)
        assume "set ys \<inter> set xs \<noteq> {}"
        then obtain q where "q \<in> set ys" "q \<in> set xs" by auto
        with sx sy obtain k1 k2 where "(k1, q) \<in> set ps" "bucket_of s k1 = b'"
          "(k2, q) \<in> set ps" "bucket_of s k2 = ?b" by auto
        with snd_determines_key [OF d, of k1 q k2] False show False by simp
      qed
      with q have "path cs' (bs ! b') ys" by (rule keep)
      moreover have "bs' ! b' = bs ! b'" using False by (rule oth)
      moreover have "set ys = {p. \<exists>k. (k, p) \<in> set ?ps' \<and> bucket_of ?s' k = b'}"
        using sy False by (auto simp: bo)
      ultimately show ?thesis by (intro exI [of _ ys]) simp
    qed
  qed (simp_all add: d')
  with e wf' show ?thesis by blast
qed

lemma run_proper:
  "well_formed s \<Longrightarrow> chains_ok s ps \<Longrightarrow> proper ps ops \<Longrightarrow>
   \<exists>s'. run s ops = Some (Inr s') \<and> well_formed s' \<and> chains_ok s' (live ps ops)"
proof (induction ops arbitrary: s ps)
  case Nil
  then show ?case by simp
next
  case (Cons x ops)
  show ?case
  proof (cases x)
    case (Insert key index)
    with Cons.prems have ix: "index \<noteq> null_index" "index \<notin> snd ` set ps"
      and pr: "proper ((key, index) # ps) ops" by auto
    from chains_ok_insert [OF Cons.prems(1,2) ix, of key]
    obtain s1 where s1: "insert_hi s key index = Inr s1" "well_formed s1" "chains_ok s1 ((key, index) # ps)"
      by blast
    from Cons.IH [OF s1(2,3) pr] s1(1) Insert show ?thesis by simp
  next
    case (Erase key index)
    with Cons.prems have mem: "(key, index) \<in> set ps"
      and pr: "proper (removeAll (key, index) ps) ops" by auto
    from chains_ok_erase [OF Cons.prems(1,2) mem]
    obtain s1 where s1: "erase s key index = Some (Inr s1)" "well_formed s1"
      "chains_ok s1 (removeAll (key, index) ps)" by blast
    from Cons.IH [OF s1(2,3) pr] s1(1) Erase show ?thesis by simp
  qed (use Cons.prems in auto)
qed

lemma chains_ok_traversal:
  assumes wf: "well_formed s" and ok: "chains_ok s ps" and mem: "(key, index) \<in> set ps"
  shows "\<exists>xs. traversal s key = Some (Inr xs) \<and> index \<in> set xs"
proof -
  from ok mem obtain bs where bs: "m_hash_buckets s = Some bs"
    by (cases "m_hash_buckets s") (auto simp: chains_ok_def)
  from wf bs obtain cs where cs: "m_index_chain s = Some cs"
    and len: "length cs = unat (m_index_chain_size s)" and lm: "m_lookup_mask s = NOT 0"
    by (rule well_formed_allocatedD)
  have b: "bucket_of s key < length bs" using wf bs by (rule bucket_of_less)
  from ok bs cs b obtain xs where p: "path cs (bs ! bucket_of s key) xs"
    and sx: "set xs = {p. \<exists>k. (k, p) \<in> set ps \<and> bucket_of s k = bucket_of s key}"
    by (rule chains_okD)
  from cs len lm p have "walk s (bs ! bucket_of s key) = Some (Inr xs)" by (rule walk_path)
  then have "traversal s key = Some (Inr xs)"
    by (simp add: traversal_allocated [OF wf bs])
  moreover from sx mem have "index \<in> set xs" by auto
  ultimately show ?thesis by blast
qed

lemma internal_init_well_formed:
  "internal_init n c = Inr s \<Longrightarrow> well_formed s \<and> chains_ok s [] \<and> \<not> is_allocated s"
  by (auto simp: internal_init_def well_formed_def chains_ok_def is_allocated_def default_granularity_def
           split: if_splits)

lemma ensure_slot_allocated:
  assumes wf: "well_formed s" and bs: "m_hash_buckets s = Some bs" and cs: "m_index_chain s = Some cs"
    and ix: "index \<noteq> null_index"
  shows "\<exists>k c. ensure_slot s index =
          Inr (s\<lparr> m_index_chain := Some (cs @ replicate k null_index), m_index_chain_size := c \<rparr>)
        \<and> length cs + k = unat c \<and> unat index < unat c"
proof (cases "m_index_chain_size s \<le> ucast index")
  case ge: True
  from resize_grows [OF wf bs cs ix ge]
  obtain c k where r: "resize_index_chain s (ucast (index + 1)) =
        Inr (s\<lparr> m_index_chain := Some (cs @ replicate k null_index), m_index_chain_size := c \<rparr>)"
    and c: "unat c = grown (unat index + 1) (unat (m_granularity s))"
    and l: "length cs + k = unat c" by blast
  from wf have "0 < unat (m_granularity s)" by (simp add: well_formed_def unat_gt_0)
  from grown_ge [OF this, of "unat index + 1"] c have "unat index < unat c" by simp
  with r l bs ge show ?thesis by (auto simp: ensure_slot_def is_allocated_def)
next
  case lt: False
  from wf bs cs have len: "length cs = unat (m_index_chain_size s)"
    by (auto elim: well_formed_allocatedD)
  from lt have "unat index < unat (m_index_chain_size s)" by (simp add: ucast_index_le)
  moreover have "s\<lparr> m_index_chain := Some (cs @ replicate 0 null_index),
                    m_index_chain_size := m_index_chain_size s \<rparr> = s"
    using cs by simp
  ultimately show ?thesis using bs lt len
    by (intro exI [of _ 0] exI [of _ "m_index_chain_size s"])
       (simp add: ensure_slot_def is_allocated_def)
qed

section \<open>Every reachable structure is well-formed\<close>

text \<open>
  Each public operation that returns normally keeps the structure well-formed: the bucket
  count is a power of two, and once the arrays are allocated their lengths are the
  recorded sizes, the hash mask is the bucket count minus one and the lookup mask is all
  ones.
\<close>

lemma wr_shape: "wr a i v = Inr a' \<Longrightarrow> shape a' = shape a"
  by (auto simp: wr_def shape_def split: option.splits if_splits)

lemma well_formed_shape:
  assumes "well_formed s" "shape b = shape (m_hash_buckets s)" "shape c = shape (m_index_chain s)"
  shows "well_formed (s\<lparr> m_hash_buckets := b, m_index_chain := c \<rparr>)"
  using assms by (auto simp: well_formed_def shape_def split: option.splits)

lemma incr_loop_shape: "incr_loop a i n index mx = Inr (a', m) \<Longrightarrow> shape a' = shape a"
proof (induction a i n index mx rule: incr_loop.induct)
  case (1 a i n index mx)
  show ?case
  proof (cases "i < n")
    case False
    with "1.prems" show ?thesis by (simp add: incr_loop.simps)
  next
    case True
    from "1.prems" True obtain v where v: "rd a i = Inr v"
      by (subst (asm) incr_loop.simps) (cases "rd a i", auto)
    show ?thesis
    proof (cases "index \<le> v")
      case le: True
      from "1.prems" True v le obtain a1 where a1: "wr a i (v + 1) = Inr a1"
        and r: "incr_loop a1 (i + 1) n index (if v + 1 > mx then v + 1 else mx) = Inr (a', m)"
        by (subst (asm) incr_loop.simps) (cases "wr a i (v + 1)", auto)
      from "1.IH"(1) [OF True le r] wr_shape [OF a1] show ?thesis by simp
    next
      case nle: False
      from "1.prems" True v nle have "incr_loop a (i + 1) n index mx = Inr (a', m)"
        by (subst (asm) incr_loop.simps) simp
      from "1.IH"(2) [OF True nle this] show ?thesis .
    qed
  qed
qed

lemma decr_loop_shape: "decr_loop a i n index mx = Inr (a', m) \<Longrightarrow> shape a' = shape a"
proof (induction a i n index mx rule: decr_loop.induct)
  case (1 a i n index mx)
  show ?case
  proof (cases "i < n")
    case False
    with "1.prems" show ?thesis by (simp add: decr_loop.simps)
  next
    case True
    from "1.prems" True obtain v where v: "rd a i = Inr v"
      by (subst (asm) decr_loop.simps) (cases "rd a i", auto)
    show ?thesis
    proof (cases "index \<le> v")
      case le: True
      from "1.prems" True v le obtain a1 where a1: "wr a i (v - 1) = Inr a1"
        and r: "decr_loop a1 (i + 1) n index (if v > mx then v else mx) = Inr (a', m)"
        by (subst (asm) decr_loop.simps) (cases "wr a i (v - 1)", auto)
      from "1.IH"(1) [OF True le r] wr_shape [OF a1] show ?thesis by simp
    next
      case nle: False
      from "1.prems" True v nle have "decr_loop a (i + 1) n index mx = Inr (a', m)"
        by (subst (asm) decr_loop.simps) simp
      from "1.IH"(2) [OF True nle this] show ?thesis .
    qed
  qed
qed

lemma shift_right_loop_shape: "shift_right_loop a i index = Inr a' \<Longrightarrow> shape a' = shape a"
proof (induction a i index rule: shift_right_loop.induct)
  case (1 a i index)
  show ?case
  proof (cases "index < i")
    case False
    with "1.prems" show ?thesis by (simp add: shift_right_loop.simps)
  next
    case True
    from "1.prems" True obtain v where v: "rd a (i - 1) = Inr v"
      by (subst (asm) shift_right_loop.simps) (cases "rd a (i - 1)", auto)
    from "1.prems" True v obtain a1 where a1: "wr a i v = Inr a1"
      and r: "shift_right_loop a1 (i - 1) index = Inr a'"
      by (subst (asm) shift_right_loop.simps) (cases "wr a i v", auto)
    from "1.IH" [OF True r] wr_shape [OF a1] show ?thesis by simp
  qed
qed

lemma shift_left_loop_shape: "shift_left_loop a i mx = Inr a' \<Longrightarrow> shape a' = shape a"
proof (induction a i mx rule: shift_left_loop.induct)
  case (1 a i mx)
  show ?case
  proof (cases "i < mx")
    case False
    with "1.prems" show ?thesis by (simp add: shift_left_loop.simps)
  next
    case True
    from "1.prems" True obtain v where v: "rd a (i + 1) = Inr v"
      by (subst (asm) shift_left_loop.simps) (cases "rd a (i + 1)", auto)
    from "1.prems" True v obtain a1 where a1: "wr a i v = Inr a1"
      and r: "shift_left_loop a1 (i + 1) mx = Inr a'"
      by (subst (asm) shift_left_loop.simps) (cases "wr a i v", auto)
    from "1.IH" [OF True r] wr_shape [OF a1] show ?thesis by simp
  qed
qed

lemma erase_loop_shape_aux:
  "erase_loop a i index = Some y \<Longrightarrow> \<forall>a'. y = Inr a' \<longrightarrow> shape a' = shape a"
proof (induction rule: erase_loop.raw_induct [rotated 1, consumes 1, case_names step])
  case (step f chain i index y)
  show ?case
  proof (cases "i = null_index")
    case True
    with step(2) show ?thesis by auto
  next
    case False
    show ?thesis
    proof (cases "rd chain (unat i)")
      case (Inl e)
      with step(2) False show ?thesis by auto
    next
      case (Inr nxt)
      show ?thesis
      proof (cases "nxt = index")
        case True
        with step(2) False Inr have "y = seq (rd chain (unat index)) (wr chain (unat i))"
          by simp
        then show ?thesis
          by (cases "rd chain (unat index)") (auto dest: wr_shape)
      next
        case ne: False
        with step(2) False Inr have "f chain nxt index = Some y" by simp
        then show ?thesis by (rule step(1))
      qed
    qed
  qed
qed

lemma erase_loop_shape: "erase_loop a i index = Some (Inr a') \<Longrightarrow> shape a' = shape a"
  using erase_loop_shape_aux [of a i index "Inr a'"] by simp

lemma resize_index_chain_well_formed:
  assumes "well_formed s" "resize_index_chain s n = Inr s'"
  shows "well_formed s'"
proof (cases "n \<le> m_index_chain_size s")
  case True
  with assms show ?thesis by (simp add: resize_index_chain_def)
next
  case False
  from assms(1) have g: "m_granularity s \<noteq> 0" by (simp add: well_formed_def)
  define c where "c = (if n mod m_granularity s = 0 then n else n + m_granularity s - n mod m_granularity s)"
  show ?thesis
  proof (cases "m_index_chain s")
    case None
    with assms False g have "s' = s\<lparr> m_index_chain_size := c \<rparr>"
      by (simp add: resize_index_chain_def Let_def c_def)
    with assms(1) None show ?thesis by (auto simp: well_formed_def split: option.splits)
  next
    case (Some cs)
    with assms False g have ok: "\<not> (length cs < unat (m_index_chain_size s) \<or> c < m_index_chain_size s)"
      and s': "s' = s\<lparr> m_index_chain := Some (take (unat (m_index_chain_size s)) cs
                  @ replicate (unat (c - m_index_chain_size s)) null_index),
                m_index_chain_size := c \<rparr>"
      by (auto simp: resize_index_chain_def Let_def c_def split: if_splits)
    from ok have "m_index_chain_size s \<le> c" by (simp add: not_less)
    then have "unat (c - m_index_chain_size s) = unat c - unat (m_index_chain_size s)"
      and "unat (m_index_chain_size s) \<le> unat c"
      by (simp_all add: unat_sub word_le_nat_alt)
    with assms(1) Some s' ok show ?thesis
      by (auto simp: well_formed_def split: option.splits)
  qed
qed

lemma ensure_slot_well_formed:
  assumes "well_formed s" "ensure_slot s index = Inr s1"
  shows "well_formed s1 \<and> is_allocated s1"
proof (cases "is_allocated s")
  case False
  with assms show ?thesis
    by (auto simp: ensure_slot_def internal_allocate_def well_formed_def is_allocated_def
             split: if_splits)
next
  case True
  have al: "is_allocated s1"
    using assms True
    by (auto simp: ensure_slot_def resize_index_chain_def Let_def is_allocated_def
             split: if_splits option.splits)
  from assms True have "resize_index_chain s (ucast (index + 1)) = Inr s1 \<or> s1 = s"
    by (auto simp: ensure_slot_def split: if_splits)
  with assms(1) al show ?thesis by (auto dest: resize_index_chain_well_formed)
qed

lemma link_slot_well_formed:
  assumes "well_formed s1" "link_slot s1 key index = Inr s'"
  shows "well_formed s'"
proof -
  from assms(2) obtain b c where "wr (m_index_chain s1) (unat index) c = Inr (m_index_chain s')"
    "wr (m_hash_buckets s1) b index = Inr (m_hash_buckets s')"
    "s' = s1\<lparr> m_hash_buckets := m_hash_buckets s', m_index_chain := m_index_chain s' \<rparr>"
    by (auto simp: link_slot_def Let_def seq_def split: sum.splits)
  with assms(1) well_formed_shape [of s1 "m_hash_buckets s'" "m_index_chain s'"]
  show ?thesis by (auto dest: wr_shape)
qed

lemma insert_hi_well_formed:
  assumes "well_formed s" "insert_hi s key index = Inr s'"
  shows "well_formed s' \<and> is_allocated s'"
proof -
  from assms(2) obtain s1 where e: "ensure_slot s index = Inr s1"
    and l: "link_slot s1 key index = Inr s'"
    by (auto simp: insert_hi_split seq_def split: sum.splits)
  from ensure_slot_well_formed [OF assms(1) e] have w: "well_formed s1" "is_allocated s1" by simp_all
  from l w(2) have "is_allocated s'"
    by (auto simp: link_slot_def Let_def seq_def wr_def is_allocated_def
             split: sum.splits option.splits if_splits)
  with link_slot_well_formed [OF w(1) l] show ?thesis by simp
qed

lemma erase_well_formed:
  assumes "well_formed s" "erase s key index = Some (Inr s')"
  shows "well_formed s'"
proof (cases "is_allocated s")
  case False
  with assms show ?thesis by (auto simp: erase_def split: if_splits)
next
  case True
  let ?k = "unat (key AND m_hash_mask s)"
  from assms(2) True obtain head where h: "rd (m_hash_buckets s) ?k = Inr head"
    by (cases "rd (m_hash_buckets s) ?k") (auto simp: erase_def Let_def split: if_splits)
  have "\<exists>b c. shape b = shape (m_hash_buckets s) \<and> shape c = shape (m_index_chain s)
          \<and> s' = s\<lparr> m_hash_buckets := b, m_index_chain := c \<rparr>"
  proof (cases "head = index")
    case eq: True
    from assms(2) True h eq obtain v b c where "wr (m_hash_buckets s) ?k v = Inr b"
      "wr (m_index_chain s) (unat index) null_index = Inr c"
      "s' = s\<lparr> m_hash_buckets := b, m_index_chain := c \<rparr>"
      by (auto simp: erase_def Let_def seq_def split: if_splits sum.splits)
    then show ?thesis by (auto dest: wr_shape)
  next
    case ne: False
    from assms(2) True h ne obtain c1 c where el: "erase_loop (m_index_chain s) head index = Some (Inr c1)"
      and w: "wr c1 (unat index) null_index = Inr c"
      and s': "s' = s\<lparr> m_hash_buckets := m_hash_buckets s, m_index_chain := c \<rparr>"
      by (auto simp: erase_def Let_def seq_def oseq_def split: if_splits sum.splits option.splits)
    have "shape c = shape (m_index_chain s)"
      using erase_loop_shape [OF el] wr_shape [OF w] by simp
    with s' show ?thesis by (intro exI [of _ "m_hash_buckets s"] exI [of _ c]) simp
  qed
  with assms(1) show ?thesis by (auto intro: well_formed_shape)
qed

lemma insert_at_index_well_formed:
  assumes "well_formed s" "insert_at_index s key index = Inr s'"
  shows "well_formed s'"
proof (cases "is_allocated s")
  case False
  with assms show ?thesis by (simp add: insert_at_index_def)
next
  case True
  from assms(2) True obtain b1 m1 c1 mx s2 c2 c3 where
    l1: "incr_loop (m_hash_buckets s) 0 (unat (m_hash_buckets_size s)) index index = Inr (b1, m1)"
    and l2: "incr_loop (m_index_chain s) 0 (unat (m_index_chain_size s)) index m1 = Inr (c1, mx)"
    and rs: "(if m_index_chain_size s \<le> ucast mx
              then resize_index_chain (s\<lparr> m_hash_buckets := b1, m_index_chain := c1 \<rparr>) (ucast (mx + 1))
              else Inr (s\<lparr> m_hash_buckets := b1, m_index_chain := c1 \<rparr>)) = Inr s2"
    and sh: "shift_right_loop (m_index_chain s2) (unat mx) (unat index) = Inr c2"
    and w: "wr c2 (unat index) null_index = Inr c3"
    and ins: "insert_hi (s2\<lparr> m_index_chain := c3 \<rparr>) key index = Inr s'"
    by (auto simp: insert_at_index_def Let_def seq_def split: sum.splits prod.splits)
  have "well_formed (s\<lparr> m_hash_buckets := b1, m_index_chain := c1 \<rparr>)"
    using assms(1) incr_loop_shape [OF l1] incr_loop_shape [OF l2] by (rule well_formed_shape)
  with rs have w2: "well_formed s2"
    by (auto split: if_splits dest: resize_index_chain_well_formed)
  have "shape c3 = shape (m_index_chain s2)"
    using shift_right_loop_shape [OF sh] wr_shape [OF w] by simp
  with w2 have "well_formed (s2\<lparr> m_hash_buckets := m_hash_buckets s2, m_index_chain := c3 \<rparr>)"
    by (intro well_formed_shape) simp_all
  then have "well_formed (s2\<lparr> m_index_chain := c3 \<rparr>)" by simp
  from insert_hi_well_formed [OF this ins] show ?thesis by simp
qed

lemma erase_and_remove_index_well_formed:
  assumes "well_formed s" "erase_and_remove_index s key index = Some (Inr s')"
  shows "well_formed s'"
proof (cases "is_allocated s")
  case False
  with assms show ?thesis by (auto simp: erase_and_remove_index_def split: if_splits)
next
  case True
  from assms(2) True obtain s1 b1 m1 c1 mx c2 c3 where
    e: "erase s key index = Some (Inr s1)"
    and l1: "decr_loop (m_hash_buckets s1) 0 (unat (m_hash_buckets_size s1)) index index = Inr (b1, m1)"
    and l2: "decr_loop (m_index_chain s1) 0 (unat (m_index_chain_size s1)) index m1 = Inr (c1, mx)"
    and sh: "shift_left_loop c1 (unat index) (unat mx) = Inr c2"
    and w: "wr c2 (unat mx) null_index = Inr c3"
    and s': "s' = s1\<lparr> m_hash_buckets := b1, m_index_chain := c3 \<rparr>"
    by (auto simp: erase_and_remove_index_def Let_def seq_def oseq_def
             split: if_splits sum.splits prod.splits option.splits)
  have w1: "well_formed s1" using assms(1) e by (rule erase_well_formed)
  have "shape c3 = shape (m_index_chain s1)"
    using decr_loop_shape [OF l2] shift_left_loop_shape [OF sh] wr_shape [OF w] by simp
  with w1 decr_loop_shape [OF l1] show ?thesis unfolding s' by (intro well_formed_shape)
qed

lemma apply_op_well_formed:
  assumes "well_formed s" "apply_op s x = Some (Inr s')"
  shows "well_formed s'"
proof (cases x)
  case (Insert key index)
  with assms insert_hi_well_formed [of s key index s'] show ?thesis by simp
next
  case (Erase key index)
  with assms erase_well_formed [of s key index s'] show ?thesis by simp
next
  case (InsertAtIndex key index)
  with assms insert_at_index_well_formed [of s key index s'] show ?thesis by simp
next
  case (EraseAndRemoveIndex key index)
  with assms erase_and_remove_index_well_formed [of s key index s'] show ?thesis by simp
next
  case Clear
  with assms show ?thesis
    by (auto simp: clear_def well_formed_def split: option.splits if_splits)
next
  case (ClearAndResize n c)
  with assms show ?thesis
    by (auto simp: clear_and_resize_def clear_and_free_def well_formed_def split: if_splits)
next
  case ClearAndFree
  with assms show ?thesis
    by (auto simp: clear_and_free_def well_formed_def)
next
  case (SetGranularity g)
  with assms show ?thesis
    by (auto simp: set_granularity_def well_formed_def split: if_splits option.splits)
next
  case (ResizeIndexChain c)
  with assms resize_index_chain_well_formed [of s c s'] show ?thesis by simp
qed

lemma run_well_formed: "well_formed s \<Longrightarrow> run s ops = Some (Inr s') \<Longrightarrow> well_formed s'"
proof (induction ops arbitrary: s)
  case Nil
  then show ?case by simp
next
  case (Cons x ops)
  from Cons.prems(2) obtain s1 where a: "apply_op s x = Some (Inr s1)"
    and r: "run s1 ops = Some (Inr s')"
    by (auto simp: oseq_def split: option.splits sum.splits)
  from apply_op_well_formed [OF Cons.prems(1) a] r show ?case by (rule Cons.IH)
qed

lemma build_well_formed:
  assumes "build n c ops = Some (Inr s)"
  shows "well_formed s"
proof -
  from assms obtain s0 where "hash_index_sized n c = Inr s0" "run s0 ops = Some (Inr s)"
    by (auto simp: build_def oseq_def split: sum.splits)
  with internal_init_well_formed [of n c s0] show ?thesis
    by (auto simp: hash_index_sized_def intro: run_well_formed)
qed

lemma reachable_mask:
  assumes "build n c ops = Some (Inr s)"
  shows "is_power_of_two (m_hash_buckets_size s)
         \<and> (is_allocated s \<longrightarrow> m_hash_mask s = m_hash_buckets_size s - 1)"
  using build_well_formed [OF assms]
  by (auto simp: well_formed_def is_allocated_def split: option.splits)

section \<open>Stored pairs are reachable\<close>

text \<open>
  C1, as stated: every pair inserted and not subsequently erased is reached by the
  traversal from \<open>first(hash)\<close>. \<open>insert\<close> does no deduplication, so the statement fails
  when a position is inserted again while it is stored: after \<open>insert(0, 0)\<close>,
  \<open>insert(0, 1)\<close>, \<open>insert(1, 1)\<close> the chain slot of position 1 has been overwritten, the
  traversal for hash 0 visits position 1 only, and the pair (0, 0) is no longer reached.
\<close>

theorem C1_counterexample:
  "build 4 4 [Insert 0 0, Insert 0 1, Insert 1 1] =
     Some (Inr (small_index [1, 1, null_index, null_index] sentinel_row))
   \<and> (0, 0) \<in> set (live [] [Insert 0 0, Insert 0 1, Insert 1 1])
   \<and> traversal (small_index [1, 1, null_index, null_index] sentinel_row) 0 = Some (Inr [1])
   \<and> (0 :: index_type) \<notin> set [1]"
  by (simp add: ev cong: cong_ev)

text \<open>
  C1, amended: on an index constructed with a power-of-two bucket count, after any
  sequence of \<open>insert\<close> and \<open>erase\<close> calls in which no position is the sentinel, a position
  is inserted only while it is not stored, and only stored pairs are erased, every call
  succeeds, and for every pair inserted and not subsequently erased the traversal from
  \<open>first(hash)\<close> along \<open>next\<close> ends at the sentinel and visits the position before.
\<close>

theorem C1_stored_pairs_reachable:
  assumes "is_power_of_two n" "proper [] ops" "(key, index) \<in> set (live [] ops)"
  shows "\<exists>s xs. build n c ops = Some (Inr s) \<and> traversal s key = Some (Inr xs) \<and> index \<in> set xs"
proof -
  from assms(1) obtain s0 where s0: "hash_index_sized n c = Inr s0"
    by (simp add: hash_index_sized_def internal_init_def)
  then have "well_formed s0" "chains_ok s0 []"
    using internal_init_well_formed [of n c s0] by (simp_all add: hash_index_sized_def)
  from run_proper [OF this assms(2)]
  obtain s where s: "run s0 ops = Some (Inr s)" "well_formed s" "chains_ok s (live [] ops)" by blast
  from chains_ok_traversal [OF s(2,3) assms(3)] s0 s(1) show ?thesis
    by (auto simp: build_def)
qed

theorem C1_witness:
  "is_power_of_two 4
   \<and> proper [] [Insert 0 0, Insert 4 1, Erase 4 1, Insert 8 1]
   \<and> (8, 1) \<in> set (live [] [Insert 0 0, Insert 4 1, Erase 4 1, Insert 8 1])
   \<and> (\<exists>s xs. build 4 4 [Insert 0 0, Insert 4 1, Erase 4 1, Insert 8 1] = Some (Inr s)
          \<and> traversal s 8 = Some (Inr xs) \<and> 1 \<in> set xs)"
  using C1_stored_pairs_reachable [of 4 "[Insert 0 0, Insert 4 1, Erase 4 1, Insert 8 1]" 8 1 4]
  by (simp add: is_power_of_two_def null_index_def)

section \<open>Growth of the chain array\<close>

text \<open>
  C2, as stated: an insert of position \<open>p\<close> at capacity \<open>c \<le> p\<close> and granularity \<open>g\<close>
  yields capacity \<open>c + g - ((p + 1 - c) mod g)\<close> when \<open>(p + 1 - c) mod g \<noteq> 0\<close>. With
  \<open>c = g = 4\<close> and \<open>p = 4\<close> that formula gives 7, and the code gives 8: it rounds the
  requested capacity \<open>p + 1\<close>, not the increment, up to a multiple of the granularity.
\<close>

theorem C2_counterexample:
  "build 4 4 [SetGranularity 4, Insert 0 0] = Some (Inr (one_index\<lparr> m_granularity := 4 \<rparr>))
   \<and> is_allocated (one_index\<lparr> m_granularity := 4 \<rparr>)
   \<and> m_index_chain_size (one_index\<lparr> m_granularity := 4 \<rparr>) = 4
   \<and> m_granularity (one_index\<lparr> m_granularity := 4 \<rparr>) = 4
   \<and> insert_hi (one_index\<lparr> m_granularity := 4 \<rparr>) 0 4 =
       Inr ((small_index [4, null_index, null_index, null_index]
                         (sentinel_row @ [0, null_index, null_index, null_index]))
              \<lparr> m_granularity := 4, m_index_chain_size := 8 \<rparr>)
   \<and> ((4 :: nat) + 1 - 4) mod 4 \<noteq> 0
   \<and> (4 :: nat) + 4 - (4 + 1 - 4) mod 4 = 7
   \<and> (8 :: size_type) \<noteq> 7"
  by (simp add: ev cong: cong_ev)

text \<open>
  C2, amended: for every allocated index with chain capacity \<open>c\<close> and granularity \<open>g\<close>,
  inserting a position \<open>p \<ge> c\<close> (not the sentinel) succeeds and yields the capacity
  \<open>p + 1\<close> rounded up to the next multiple of \<open>g\<close>: exactly \<open>p + 1\<close> when
  \<open>(p + 1) mod g = 0\<close>, and \<open>p + 1 + g - ((p + 1) mod g)\<close> otherwise.
\<close>

theorem C2_growth_rounds_up_to_granularity:
  assumes "well_formed s" "is_allocated s" "index \<noteq> null_index" "m_index_chain_size s \<le> ucast index"
  shows "\<exists>s'. insert_hi s key index = Inr s'
           \<and> unat (m_index_chain_size s') =
               (if (unat index + 1) mod unat (m_granularity s) = 0 then unat index + 1
                else unat index + 1 + unat (m_granularity s)
                     - (unat index + 1) mod unat (m_granularity s))"
proof -
  from assms(2) obtain bs where bs: "m_hash_buckets s = Some bs"
    by (auto simp: is_allocated_def)
  from assms(1) bs obtain cs where cs: "m_index_chain s = Some cs"
    by (rule well_formed_allocatedD)
  from resize_grows [OF assms(1) bs cs assms(3,4)]
  obtain c k where r: "resize_index_chain s (ucast (index + 1)) =
        Inr (s\<lparr> m_index_chain := Some (cs @ replicate k null_index), m_index_chain_size := c \<rparr>)"
    and c: "unat c = grown (unat index + 1) (unat (m_granularity s))"
    and l: "length cs + k = unat c" by blast
  let ?s1 = "s\<lparr> m_index_chain := Some (cs @ replicate k null_index), m_index_chain_size := c \<rparr>"
  from assms(1) have "0 < unat (m_granularity s)" by (simp add: well_formed_def unat_gt_0)
  from grown_ge [OF this, of "unat index + 1"] c l
  have rng: "unat index < length (cs @ replicate k null_index)" by simp
  have wf1: "well_formed ?s1" using assms(1) bs cs l by (simp add: well_formed_def)
  have e: "ensure_slot s index = Inr ?s1"
    using assms(2,4) r by (simp add: ensure_slot_def)
  have "link_slot ?s1 key index =
      Inr (?s1\<lparr> m_hash_buckets := Some (bs[bucket_of ?s1 key := index]),
                 m_index_chain := Some ((cs @ replicate k null_index)[unat index := bs ! bucket_of ?s1 key]) \<rparr>)"
    using wf1 _ _ rng by (rule link_slot_allocated) (simp_all add: bs)
  with e c show ?thesis
    by (simp add: insert_hi_split grown_def)
qed

theorem C2_witness:
  "well_formed (one_index\<lparr> m_granularity := 4 \<rparr>)
   \<and> is_allocated (one_index\<lparr> m_granularity := 4 \<rparr>)
   \<and> (4 :: index_type) \<noteq> null_index
   \<and> m_index_chain_size (one_index\<lparr> m_granularity := 4 \<rparr>) \<le> ucast (4 :: index_type)
   \<and> (\<exists>s'. insert_hi (one_index\<lparr> m_granularity := 4 \<rparr>) 0 4 = Inr s'
          \<and> unat (m_index_chain_size s') = 8)"
  using C2_growth_rounds_up_to_granularity [of "one_index\<lparr> m_granularity := 4 \<rparr>" 4 0]
  by (simp add: well_formed_def is_allocated_def is_power_of_two_def one_index_def
      small_index_def sentinel_row_def null_index_def)

section \<open>Erasing\<close>

text \<open>
  C3, as stated: erasing a position that is not in the chain of the bucket of the given
  hash leaves the whole structure unchanged. \<open>erase\<close> ends with the unconditional store
  \<open>m_index_chain[index] = null_index\<close>: with positions 1 and 0 chained in bucket 0,
  \<open>erase(1, 1)\<close> does not find position 1 in the (empty) chain of bucket 1 and still resets
  its chain slot, which cuts position 0 off the chain of bucket 0.
\<close>

theorem C3_counterexample:
  "build 4 4 [Insert 0 0, Insert 0 1] =
     Some (Inr (small_index [1, null_index, null_index, null_index]
                            [null_index, 0, null_index, null_index]))
   \<and> traversal (small_index [1, null_index, null_index, null_index]
                             [null_index, 0, null_index, null_index]) 1 = Some (Inr [])
   \<and> (ucast (1 :: index_type) :: size_type)
        < m_index_chain_size (small_index [1, null_index, null_index, null_index]
                                          [null_index, 0, null_index, null_index])
   \<and> erase (small_index [1, null_index, null_index, null_index]
                         [null_index, 0, null_index, null_index]) 1 1 =
       Some (Inr (small_index [1, null_index, null_index, null_index] sentinel_row))
   \<and> small_index [1, null_index, null_index, null_index] sentinel_row
       \<noteq> small_index [1, null_index, null_index, null_index]
                       [null_index, 0, null_index, null_index]
   \<and> traversal (small_index [1, null_index, null_index, null_index]
                             [null_index, 0, null_index, null_index]) 0 = Some (Inr [1, 0])
   \<and> traversal (small_index [1, null_index, null_index, null_index] sentinel_row) 0
       = Some (Inr [1])"
  by (simp add: ev cong: cong_ev)

text \<open>
  C3, amended: for every allocated index, when the chain of bucket \<open>hash & hash_mask\<close>
  ends at the sentinel and does not contain \<open>position\<close> (within chain capacity, not the
  sentinel), \<open>erase(hash, position)\<close> returns and changes nothing but the chain slot of
  \<open>position\<close>, which it sets to the sentinel; the bucket table, every other chain slot and
  the sizes and masks stay as they were.
\<close>

theorem C3_erase_absent_resets_slot:
  assumes "well_formed s" "is_allocated s" "traversal s key = Some (Inr xs)" "index \<notin> set xs"
    "index \<noteq> null_index" "(ucast index :: size_type) < m_index_chain_size s"
  shows "erase s key index =
           Some (Inr (s\<lparr> m_index_chain :=
                           Some ((deref (m_index_chain s))[unat index := null_index]) \<rparr>))"
proof -
  from assms(2) obtain bs where bs: "m_hash_buckets s = Some bs"
    by (auto simp: is_allocated_def)
  from assms(1) bs obtain cs where cs: "m_index_chain s = Some cs"
    and len: "length cs = unat (m_index_chain_size s)" and lm: "m_lookup_mask s = NOT 0"
    by (rule well_formed_allocatedD)
  from assms(3) have "walk s (bs ! bucket_of s key) = Some (Inr xs)"
    by (simp add: traversal_allocated [OF assms(1) bs])
  with cs len lm have p: "path cs (bs ! bucket_of s key) xs" by (rule path_walk)
  from assms(6) len have r: "unat index < length cs" by (simp add: ucast_index_less)
  have "erase s key index = Some (Inr (s\<lparr> m_index_chain := Some (cs[unat index := null_index]) \<rparr>))"
    using assms(1) bs cs p assms(4) assms(5) r by (rule erase_absent)
  with cs show ?thesis by (simp add: deref_def)
qed

theorem C3_witness:
  "well_formed (small_index [2, null_index, null_index, null_index] [null_index, 0, 1, null_index])
   \<and> is_allocated (small_index [2, null_index, null_index, null_index] [null_index, 0, 1, null_index])
   \<and> traversal (small_index [2, null_index, null_index, null_index] [null_index, 0, 1, null_index]) 5 = Some (Inr [])
   \<and> (2 :: index_type) \<notin> set []
   \<and> (2 :: index_type) \<noteq> null_index
   \<and> (ucast (2 :: index_type) :: size_type)
        < m_index_chain_size (small_index [2, null_index, null_index, null_index] [null_index, 0, 1, null_index])
   \<and> erase (small_index [2, null_index, null_index, null_index] [null_index, 0, 1, null_index]) 5 2
       = Some (Inr (small_index [2, null_index, null_index, null_index] [null_index, 0, null_index, null_index]))"
  using C3_erase_absent_resets_slot
    [of "small_index [2, null_index, null_index, null_index] [null_index, 0, 1, null_index]" 5 "[]" 2]
  by (simp add: ev well_formed_def cong: cong_ev)

text \<open>
  C8, as stated: after \<open>erase(hash, position)\<close> of a position that was in the chain of its
  bucket, the traversal never reaches the position. A position inserted twice under the
  same hash is its own successor; \<open>erase\<close> then moves the bucket head to that successor,
  which is the position itself, and the traversal still visits it.
\<close>

theorem C8_counterexample:
  "build 4 4 [Insert 0 0, Insert 0 0] =
     Some (Inr (small_index [0, null_index, null_index, null_index]
                            [0, null_index, null_index, null_index]))
   \<and> is_allocated (small_index [0, null_index, null_index, null_index]
                                [0, null_index, null_index, null_index])
   \<and> first (small_index [0, null_index, null_index, null_index]
                         [0, null_index, null_index, null_index]) 0 = Inr 0
   \<and> erase (small_index [0, null_index, null_index, null_index]
                         [0, null_index, null_index, null_index]) 0 0 = Some (Inr one_index)
   \<and> traversal one_index 0 = Some (Inr [0])"
  by (simp add: ev cong: cong_ev)

text \<open>
  C8, amended: for every allocated index, when the traversal from \<open>first(hash)\<close> ends at
  the sentinel and visits \<open>position\<close>, \<open>erase(hash, position)\<close> returns, and afterwards the
  traversal from \<open>first(hash)\<close> visits the same positions in the same order without
  \<open>position\<close>, so it never reaches \<open>position\<close>.
\<close>

theorem C8_erase_removes_position:
  assumes "well_formed s" "is_allocated s" "traversal s key = Some (Inr xs)" "index \<in> set xs"
  shows "\<exists>s'. erase s key index = Some (Inr s')
              \<and> traversal s' key = Some (Inr (remove1 index xs))
              \<and> index \<notin> set (remove1 index xs)"
proof -
  from assms(2) obtain bs where bs: "m_hash_buckets s = Some bs"
    by (auto simp: is_allocated_def)
  from assms(1) bs obtain cs where cs: "m_index_chain s = Some cs"
    and len: "length cs = unat (m_index_chain_size s)" and lm: "m_lookup_mask s = NOT 0"
    by (rule well_formed_allocatedD)
  from assms(3) have "walk s (bs ! bucket_of s key) = Some (Inr xs)"
    by (simp add: traversal_allocated [OF assms(1) bs])
  with cs len lm have p: "path cs (bs ! bucket_of s key) xs" by (rule path_walk)
  from erase_present [OF assms(1) bs cs p assms(4)]
  obtain bs' cs' where e: "erase s key index =
        Some (Inr (s\<lparr> m_hash_buckets := Some bs', m_index_chain := Some cs' \<rparr>))"
    and l: "length bs' = length bs" "length cs' = length cs"
    and p': "path cs' (bs' ! bucket_of s key) (remove1 index xs)" by blast
  let ?s' = "s\<lparr> m_hash_buckets := Some bs', m_index_chain := Some cs' \<rparr>"
  have wf': "well_formed ?s'" using assms(1) bs cs l by (rule well_formed_arrays_update)
  have b: "bucket_of ?s' key = bucket_of s key" by (simp add: bucket_of_def)
  have "walk ?s' (bs' ! bucket_of s key) = Some (Inr (remove1 index xs))"
    using p' by (intro walk_path [where cs = cs']) (simp_all add: l len lm)
  then have "traversal ?s' key = Some (Inr (remove1 index xs))"
    using traversal_allocated [OF wf', of bs' key] b by simp
  moreover have "index \<notin> set (remove1 index xs)"
    using path_distinct [OF p] by simp
  ultimately show ?thesis using e by blast
qed

theorem C8_witness:
  "well_formed (small_index [2, null_index, null_index, null_index] [null_index, 0, 1, null_index])
   \<and> is_allocated (small_index [2, null_index, null_index, null_index] [null_index, 0, 1, null_index])
   \<and> traversal (small_index [2, null_index, null_index, null_index] [null_index, 0, 1, null_index]) 8
       = Some (Inr [2, 1, 0])
   \<and> (1 :: index_type) \<in> set [2, 1, 0]
   \<and> (\<exists>s'. erase (small_index [2, null_index, null_index, null_index] [null_index, 0, 1, null_index]) 8 1
              = Some (Inr s')
          \<and> traversal s' 8 = Some (Inr [2, 0]) \<and> (1 :: index_type) \<notin> set [2, 0])"
  using C8_erase_removes_position
    [of "small_index [2, null_index, null_index, null_index] [null_index, 0, 1, null_index]" 8 "[2, 1, 0]" 1]
  by (simp add: ev well_formed_def cong: cong_ev)

section \<open>Insertion order\<close>

text \<open>
  Inserting a position that is not in the chain of its bucket puts it in front of that
  chain, whatever the capacity of the chain array.
\<close>

lemma insert_prepends:
  assumes wf: "well_formed s" and ix: "index \<noteq> null_index"
    and tr: "traversal s key = Some (Inr xs)" and fresh: "index \<notin> set xs"
  shows "\<exists>s'. insert_hi s key index = Inr s' \<and> well_formed s' \<and> is_allocated s'
              \<and> m_hash_buckets_size s' = m_hash_buckets_size s
              \<and> traversal s' key = Some (Inr (index # xs))"
proof -
  have "\<exists>s1 bs cs. ensure_slot s index = Inr s1 \<and> well_formed s1 \<and> m_hash_buckets s1 = Some bs
          \<and> m_index_chain s1 = Some cs \<and> unat index < length cs
          \<and> m_hash_buckets_size s1 = m_hash_buckets_size s
          \<and> path cs (bs ! bucket_of s1 key) xs"
  proof (cases "is_allocated s")
    case False
    from ensure_slot_unallocated [OF wf False ix]
    obtain c where e: "ensure_slot s index =
           Inr (s\<lparr> m_hash_buckets := Some (replicate (unat (m_hash_buckets_size s)) null_index),
                   m_index_chain := Some (replicate (unat c) null_index),
                   m_index_chain_size := c,
                   m_hash_mask := m_hash_buckets_size s - 1,
                   m_lookup_mask := NOT 0 \<rparr>)"
      and r: "unat index < unat c" by blast
    let ?bs = "replicate (unat (m_hash_buckets_size s)) null_index"
    let ?s1 = "s\<lparr> m_hash_buckets := Some ?bs, m_index_chain := Some (replicate (unat c) null_index),
                  m_index_chain_size := c, m_hash_mask := m_hash_buckets_size s - 1,
                  m_lookup_mask := NOT 0 \<rparr>"
    have wf1: "well_formed ?s1" using wf by (simp add: well_formed_def)
    have "bucket_of ?s1 key < length ?bs" using wf1 by (rule bucket_of_less) simp
    moreover from tr have "xs = []" by (simp add: traversal_unallocated [OF wf False])
    ultimately have "path (replicate (unat c) null_index) (?bs ! bucket_of ?s1 key) xs" by simp
    with e wf1 r show ?thesis by (intro exI [of _ ?s1]) simp
  next
    case True
    then obtain bs where bs: "m_hash_buckets s = Some bs" by (auto simp: is_allocated_def)
    from wf bs obtain cs where cs: "m_index_chain s = Some cs"
      and len: "length cs = unat (m_index_chain_size s)" and lm: "m_lookup_mask s = NOT 0"
      by (rule well_formed_allocatedD)
    from tr have "walk s (bs ! bucket_of s key) = Some (Inr xs)"
      by (simp add: traversal_allocated [OF wf bs])
    with cs len lm have p: "path cs (bs ! bucket_of s key) xs" by (rule path_walk)
    from ensure_slot_allocated [OF wf bs cs ix]
    obtain k c where e: "ensure_slot s index =
          Inr (s\<lparr> m_index_chain := Some (cs @ replicate k null_index), m_index_chain_size := c \<rparr>)"
      and l: "length cs + k = unat c" and r: "unat index < unat c" by blast
    let ?s1 = "s\<lparr> m_index_chain := Some (cs @ replicate k null_index), m_index_chain_size := c \<rparr>"
    have wf1: "well_formed ?s1" using wf bs cs l by (simp add: well_formed_def)
    have "path (cs @ replicate k null_index) (bs ! bucket_of ?s1 key) xs"
      using p by (simp add: bucket_of_def path_append_array)
    with e wf1 bs l r show ?thesis by (intro exI [of _ ?s1]) simp
  qed
  then obtain s1 bs cs where e: "ensure_slot s index = Inr s1" and wf1: "well_formed s1"
    and bs: "m_hash_buckets s1 = Some bs" and cs: "m_index_chain s1 = Some cs"
    and r: "unat index < length cs" and sz: "m_hash_buckets_size s1 = m_hash_buckets_size s"
    and p: "path cs (bs ! bucket_of s1 key) xs" by blast
  let ?bs' = "bs[bucket_of s1 key := index]"
  let ?cs' = "cs[unat index := bs ! bucket_of s1 key]"
  let ?s' = "s1\<lparr> m_hash_buckets := Some ?bs', m_index_chain := Some ?cs' \<rparr>"
  have l: "link_slot s1 key index = Inr ?s'" using wf1 bs cs r by (rule link_slot_allocated)
  have wf': "well_formed ?s'" using wf1 bs cs by (rule well_formed_arrays_update) simp_all
  from wf1 bs obtain cs0 where "m_index_chain s1 = Some cs0"
    and len: "length cs0 = unat (m_index_chain_size s1)" and lm: "m_lookup_mask s1 = NOT 0"
    by (rule well_formed_allocatedD)
  with cs have len: "length cs = unat (m_index_chain_size s1)" by simp
  have b: "bucket_of s1 key < length bs" using wf1 bs by (rule bucket_of_less)
  have "path ?cs' index (index # xs)"
    using p r ix fresh by (simp add: path_update_notin)
  then have "walk ?s' index = Some (Inr (index # xs))"
    by (rule walk_path [rotated 3]) (simp_all add: len lm)
  moreover have "bucket_of ?s' key = bucket_of s1 key" by (simp add: bucket_of_def)
  ultimately have "traversal ?s' key = Some (Inr (index # xs))"
    using traversal_allocated [OF wf', of ?bs' key] b by simp
  moreover have "is_allocated ?s'" by (simp add: is_allocated_def)
  moreover have "insert_hi s key index = Inr ?s'" using e l by (simp add: insert_hi_split)
  ultimately show ?thesis using wf' sz by (intro exI [of _ ?s']) simp
qed

lemma traversal_same_bucket:
  assumes "well_formed s" "is_allocated s" "key AND m_hash_mask s = key' AND m_hash_mask s"
  shows "traversal s key = traversal s key'"
proof -
  from assms(2) obtain bs where bs: "m_hash_buckets s = Some bs" by (auto simp: is_allocated_def)
  show ?thesis
    using assms(3) by (simp add: traversal_allocated [OF assms(1) bs] bucket_of_def)
qed

lemma traversal_links:
  assumes wf: "well_formed s" and al: "is_allocated s" and tr: "traversal s key = Some (Inr (x # xs))"
  shows "first s key = Inr x \<and> next_hi s x = Inr (case xs of [] \<Rightarrow> null_index | y # _ \<Rightarrow> y)
         \<and> walk s (case xs of [] \<Rightarrow> null_index | y # _ \<Rightarrow> y) = Some (Inr xs)"
proof -
  from al obtain bs where bs: "m_hash_buckets s = Some bs" by (auto simp: is_allocated_def)
  from wf bs obtain cs where cs: "m_index_chain s = Some cs"
    and len: "length cs = unat (m_index_chain_size s)" and lm: "m_lookup_mask s = NOT 0"
    by (rule well_formed_allocatedD)
  from tr have w: "walk s (bs ! bucket_of s key) = Some (Inr (x # xs))"
    by (simp add: traversal_allocated [OF wf bs])
  with cs len lm have p: "path cs (bs ! bucket_of s key) (x # xs)" by (rule path_walk)
  then have h: "bs ! bucket_of s key = x" "unat x < length cs" "path cs (cs ! unat x) xs" by auto
  from h(3) have n: "cs ! unat x = (case xs of [] \<Rightarrow> null_index | y # _ \<Rightarrow> y)"
    by (cases xs) auto
  from cs len lm h(3) have "walk s (cs ! unat x) = Some (Inr xs)" by (rule walk_path)
  with h n show ?thesis
    by (simp add: first_allocated [OF wf bs] next_hi_allocated [OF cs len lm])
qed

lemma walk_links:
  assumes wf: "well_formed s" and al: "is_allocated s" and w: "walk s x = Some (Inr (x # xs))"
  shows "next_hi s x = Inr (case xs of [] \<Rightarrow> null_index | y # _ \<Rightarrow> y)
         \<and> walk s (case xs of [] \<Rightarrow> null_index | y # _ \<Rightarrow> y) = Some (Inr xs)"
proof -
  from al obtain bs where bs: "m_hash_buckets s = Some bs" by (auto simp: is_allocated_def)
  from wf bs obtain cs where cs: "m_index_chain s = Some cs"
    and len: "length cs = unat (m_index_chain_size s)" and lm: "m_lookup_mask s = NOT 0"
    by (rule well_formed_allocatedD)
  from cs len lm w have p: "path cs x (x # xs)" by (rule path_walk)
  then have h: "unat x < length cs" "path cs (cs ! unat x) xs" by auto
  from h(2) have n: "cs ! unat x = (case xs of [] \<Rightarrow> null_index | y # _ \<Rightarrow> y)"
    by (cases xs) auto
  from cs len lm h(2) have "walk s (cs ! unat x) = Some (Inr xs)" by (rule walk_path)
  with h n show ?thesis
    by (simp add: next_hi_allocated [OF cs len lm])
qed

text \<open>
  C6: on an index constructed with 4 buckets (hash mask 3) and any chain capacity,
  \<open>insert(0, 0)\<close>, \<open>insert(4, 1)\<close>, \<open>insert(8, 2)\<close> succeed and afterwards
  \<open>first(0) = 2\<close>, \<open>next(2) = 1\<close>, \<open>next(1) = 0\<close> and \<open>next(0) = null_index\<close>: each insert
  prepends its position to the chain of bucket 0.
\<close>

theorem C6_insert_prepends_lifo:
  "\<exists>s. build 4 c [Insert 0 0, Insert 4 1, Insert 8 2] = Some (Inr s)
       \<and> m_hash_buckets_size s = 4 \<and> m_hash_mask s = 3
       \<and> first s 0 = Inr 2 \<and> next_hi s 2 = Inr 1 \<and> next_hi s 1 = Inr 0
       \<and> next_hi s 0 = Inr null_index"
proof -
  have p4: "is_power_of_two 4" by (simp add: is_power_of_two_def)
  then obtain s0 where s0: "hash_index_sized 4 c = Inr s0" "m_hash_buckets_size s0 = 4"
    by (simp add: hash_index_sized_def internal_init_def)
  then have wf0: "well_formed s0" and un: "\<not> is_allocated s0"
    using internal_init_well_formed [of 4 c s0] by (simp_all add: hash_index_sized_def)
  have nn: "(0 :: index_type) \<noteq> null_index" "(1 :: index_type) \<noteq> null_index"
    "(2 :: index_type) \<noteq> null_index" by (simp_all add: null_index_def)
  have mask: "m_hash_mask s = 3" if "well_formed s" "is_allocated s" "m_hash_buckets_size s = 4" for s
    using that by (auto simp: well_formed_def is_allocated_def split: option.splits)
  from insert_prepends [OF wf0 nn(1) traversal_unallocated [OF wf0 un, of 0]]
  obtain s1 where s1: "insert_hi s0 0 0 = Inr s1" "well_formed s1" "is_allocated s1"
    "m_hash_buckets_size s1 = 4" "traversal s1 0 = Some (Inr [0])"
    using s0(2) by auto
  have "traversal s1 4 = traversal s1 0"
    using s1(2,3) by (rule traversal_same_bucket) (simp add: mask [OF s1(2,3,4)])
  with s1(5) have t1: "traversal s1 4 = Some (Inr [0])" by simp
  from insert_prepends [OF s1(2) nn(2) t1]
  obtain s2 where s2: "insert_hi s1 4 1 = Inr s2" "well_formed s2" "is_allocated s2"
    "m_hash_buckets_size s2 = 4" "traversal s2 4 = Some (Inr [1, 0])"
    using s1(4) by auto
  have "traversal s2 8 = traversal s2 4"
    using s2(2,3) by (rule traversal_same_bucket) (simp add: mask [OF s2(2,3,4)])
  with s2(5) have t2: "traversal s2 8 = Some (Inr [1, 0])" by simp
  from insert_prepends [OF s2(2) nn(3) t2]
  obtain s3 where s3: "insert_hi s2 8 2 = Inr s3" "well_formed s3" "is_allocated s3"
    "m_hash_buckets_size s3 = 4" "traversal s3 8 = Some (Inr [2, 1, 0])"
    using s2(4) by auto
  have "traversal s3 0 = traversal s3 8"
    using s3(2,3) by (rule traversal_same_bucket) (simp add: mask [OF s3(2,3,4)])
  with s3(5) have t3: "traversal s3 0 = Some (Inr [2, 1, 0])" by simp
  from traversal_links [OF s3(2,3) t3]
  have a: "first s3 0 = Inr 2" "next_hi s3 2 = Inr 1" "walk s3 1 = Some (Inr [1, 0])" by simp_all
  from walk_links [OF s3(2,3) a(3)]
  have b: "next_hi s3 1 = Inr 0" "walk s3 0 = Some (Inr [0])" by simp_all
  from walk_links [OF s3(2,3) b(2)]
  have c: "next_hi s3 0 = Inr null_index" by simp
  have "build 4 c [Insert 0 0, Insert 4 1, Insert 8 2] = Some (Inr s3)"
    using s0(1) s1(1) s2(1) s3(1) by (simp add: build_def)
  with a b c s3(4) mask [OF s3(2,3,4)] show ?thesis by blast
qed

section \<open>The distribution metric\<close>

text \<open>
  C4: \<open>compute_distribution_percentage\<close> is documented to return a number in the range
  [0,100]. With 4 buckets and the twelve positions 0..11 all inserted under hash 0, the
  chain lengths are 12, 0, 0, 0, the average is 3, the error is 8 + 2 + 2 + 2 = 14, and
  the function returns \<open>100 - 1400 / 12 = - 16\<close> converted to \<open>size_type\<close>, that is
  \<open>2^64 - 16\<close>, which is not in [0,100].
\<close>

theorem C4_distribution_out_of_range:
  "build 4 16 [Insert 0 0, Insert 0 1, Insert 0 2, Insert 0 3, Insert 0 4, Insert 0 5,
               Insert 0 6, Insert 0 7, Insert 0 8, Insert 0 9, Insert 0 10, Insert 0 11]
     = Some (Inr crowded_index)
   \<and> compute_distribution_percentage crowded_index = Some (Inr 18446744073709551600)
   \<and> \<not> (18446744073709551600 :: size_type) \<le> 100"
  by (simp add: ev cong: cong_ev)

section \<open>The cached hash mask\<close>

text \<open>
  C5: the hash mask is meant to be the cached value of the bucket count minus one in
  every state. \<open>clear_and_resize\<close> records a new bucket count without updating the mask:
  after \<open>clear_and_resize(8, 16)\<close> on a default-constructed index the bucket count is 8
  and the mask is still 1023.
\<close>

theorem C5_clear_and_resize_stale_mask:
  "build 1024 1024 [] = Some (Inr fresh_index)
   \<and> clear_and_resize fresh_index 8 16 =
       Inr (fresh_index\<lparr> m_hash_buckets_size := 8, m_index_chain_size := 16 \<rparr>)
   \<and> m_hash_buckets_size (fresh_index\<lparr> m_hash_buckets_size := 8, m_index_chain_size := 16 \<rparr>) = 8
   \<and> m_hash_mask (fresh_index\<lparr> m_hash_buckets_size := 8, m_index_chain_size := 16 \<rparr>) = 1023
   \<and> (1023 :: size_type) \<noteq> 8 - 1"
  by (simp add: ev cong: cong_ev)

section \<open>Ordered-array maintenance\<close>

text \<open>
  C7: \<open>insert_at_index\<close> followed by \<open>erase_and_remove_index\<close> with the same hash and
  position should restore the stored positions. With the unsigned index type the
  comparison \<open>m_hash_buckets[i] >= index\<close> also holds for the sentinel, so
  \<open>insert_at_index(1, 1)\<close> on the index holding only position 0 (in bucket 0) turns the
  sentinel of every empty bucket and of every chain slot into 0; the following
  \<open>erase_and_remove_index(1, 1)\<close> takes the sentinel as the greatest stored position and
  shifts the chain array past its end.
\<close>

theorem C7_shift_round_trip_fails:
  "build 4 4 [Insert 0 0] = Some (Inr one_index)
   \<and> traversal one_index 0 = Some (Inr [0])
   \<and> traversal one_index 2 = Some (Inr [])
   \<and> insert_at_index one_index 1 1 = Inr (small_index [0, 1, 0, 0] [0, 0, 0, 0])
   \<and> first (small_index [0, 1, 0, 0] [0, 0, 0, 0]) 2 = Inr 0
   \<and> next_hi (small_index [0, 1, 0, 0] [0, 0, 0, 0]) 0 = Inr 0
   \<and> erase_and_remove_index (small_index [0, 1, 0, 0] [0, 0, 0, 0]) 1 1 = Some (Inl OutOfBounds)"
  by (simp add: ev cong: cong_ev)

text \<open>
  C10: on an index that is not allocated, \<open>insert_at_index\<close> returns the index as it
  is, with nothing allocated and nothing recorded, whereas \<open>insert\<close> allocates and records
  the pair.
\<close>

theorem C10_insert_at_index_unallocated_noop:
  assumes "well_formed s" "\<not> is_allocated s" "index \<noteq> null_index"
  shows "insert_at_index s key index = Inr s
         \<and> traversal s key = Some (Inr [])
         \<and> (\<exists>s'. insert_hi s key index = Inr s' \<and> is_allocated s'
                  \<and> traversal s' key = Some (Inr [index]))"
proof -
  have a: "insert_at_index s key index = Inr s"
    using assms(2) by (simp add: insert_at_index_def)
  have b: "traversal s key = Some (Inr [])"
    using assms(1,2) by (rule traversal_unallocated)
  from ensure_slot_unallocated [OF assms]
  obtain c where e: "ensure_slot s index =
           Inr (s\<lparr> m_hash_buckets := Some (replicate (unat (m_hash_buckets_size s)) null_index),
                   m_index_chain := Some (replicate (unat c) null_index),
                   m_index_chain_size := c,
                   m_hash_mask := m_hash_buckets_size s - 1,
                   m_lookup_mask := NOT 0 \<rparr>)"
    and r: "unat index < unat c" by blast
  let ?bs = "replicate (unat (m_hash_buckets_size s)) null_index"
  let ?cs = "replicate (unat c) null_index"
  let ?s1 = "s\<lparr> m_hash_buckets := Some ?bs, m_index_chain := Some ?cs, m_index_chain_size := c,
                m_hash_mask := m_hash_buckets_size s - 1, m_lookup_mask := NOT 0 \<rparr>"
  have wf1: "well_formed ?s1" using assms(1) by (simp add: well_formed_def)
  have bl: "bucket_of ?s1 key < length ?bs"
    using wf1 by (rule bucket_of_less) simp
  have l: "link_slot ?s1 key index =
      Inr (?s1\<lparr> m_hash_buckets := Some (?bs[bucket_of ?s1 key := index]),
                 m_index_chain := Some (?cs[unat index := ?bs ! bucket_of ?s1 key]) \<rparr>)"
    using wf1 _ _ _ by (rule link_slot_allocated) (simp_all add: r)
  let ?s' = "?s1\<lparr> m_hash_buckets := Some (?bs[bucket_of ?s1 key := index]),
                 m_index_chain := Some (?cs[unat index := ?bs ! bucket_of ?s1 key]) \<rparr>"
  have wf': "well_formed ?s'" using wf1 by (simp add: well_formed_def)
  have "path (?cs[unat index := ?bs ! bucket_of ?s1 key]) index [index]"
    using assms(3) r bl by simp
  then have "walk ?s' index = Some (Inr [index])"
    by (rule walk_path [rotated 3]) simp_all
  moreover have "bucket_of ?s' key = bucket_of ?s1 key" by (simp add: bucket_of_def)
  ultimately have "traversal ?s' key = Some (Inr [index])"
    using traversal_allocated [OF wf', of "?bs[bucket_of ?s1 key := index]" key] bl by simp
  moreover have "is_allocated ?s'" by (simp add: is_allocated_def)
  moreover have "insert_hi s key index = Inr ?s'"
    using e l by (simp add: insert_hi_split)
  ultimately show ?thesis using a b by blast
qed

theorem C10_witness:
  "well_formed fresh_index \<and> \<not> is_allocated fresh_index \<and> (7 :: index_type) \<noteq> null_index
   \<and> insert_at_index fresh_index 5 7 = Inr fresh_index
   \<and> traversal fresh_index 5 = Some (Inr [])
   \<and> (\<exists>s'. insert_hi fresh_index 5 7 = Inr s' \<and> is_allocated s' \<and> traversal s' 5 = Some (Inr [7]))"
  using C10_insert_at_index_unallocated_noop [of fresh_index 7 5]
  by (simp add: well_formed_def is_allocated_def is_power_of_two_def fresh_index_def null_index_def)

section \<open>Move construction\<close>

text \<open>
  Moving hands the whole state to the destination and leaves a default-constructed,
  unallocated source; the comparison of two allocated well-formed indexes with the same
  state returns true.
\<close>

lemma move_construct_state:
  "move_construct s = Inr (s, fresh_index)
   \<and> \<not> is_allocated fresh_index \<and> allocated_bytes fresh_index = 0"
  by (simp add: move_construct_def swap_hi_def hash_index_default_def internal_init_def
      is_power_of_two_def default_initial_size_def default_granularity_def fresh_index_def
      is_allocated_def allocated_bytes_def Let_def)

lemma cmp_loop_same:
  "n \<le> length xs \<Longrightarrow> cmp_loop (Some xs) (Some xs) i n = Inr True"
proof (induction "n - i" arbitrary: i)
  case 0
  then show ?case by (subst cmp_loop.simps) simp
next
  case (Suc d)
  then have "i < n" "d = n - (i + 1)" by simp_all
  with Suc show ?case by (subst cmp_loop.simps) (simp add: rd_Some)
qed

lemma equals_same_allocated:
  assumes "well_formed s" "is_allocated s"
  shows "equals s s = Inr True"
proof -
  from assms(2) obtain bs where bs: "m_hash_buckets s = Some bs"
    by (auto simp: is_allocated_def)
  from assms(1) bs obtain cs where "m_index_chain s = Some cs"
    "length bs = unat (m_hash_buckets_size s)" "length cs = unat (m_index_chain_size s)"
    by (rule well_formed_allocatedD)
  with bs show ?thesis by (simp add: equals_def cmp_loop_same)
qed

text \<open>
  C9: after a move the destination should compare equal to the value the source had.
  For a source that was never allocated, \<open>operator ==\<close> finds both objects unallocated
  and then compares \<open>m_hash_buckets_size\<close> (here 1024) slots of the one-element dummy
  array: it reads outside the array.
\<close>

theorem C9_equals_reads_outside_dummy:
  "build 1024 1024 [] = Some (Inr fresh_index)
   \<and> move_construct fresh_index = Inr (fresh_index, fresh_index)
   \<and> equals fresh_index fresh_index = Inl OutOfBounds"
  by (simp add: ev cong: cong_ev)

end
